theory Spec2Isabelle
  imports Main "HOL-Library.Sublist"
begin

section \<open>JavaScript strings\<close>

text \<open>
  A JavaScript string is a sequence of UTF-16 code units, and \<open>length\<close>, \<open>substring\<close>,
  \<open>lastIndexOf\<close> and \<open>split\<close> all count code units. A string is therefore modelled as
  the list of its code units, each a natural number (below 65536 in a real string; no operation
  of the program computes with the value of a code unit, so the bound is never needed).
  \<open>js\<close> turns an ASCII literal into such a list.
\<close>

type_synonym jsstring = "nat list"

definition js :: "string \<Rightarrow> jsstring" where
  "js s = map of_char s"

text \<open>
  \<open>String.prototype.trim\<close> removes the code units of the ECMAScript productions WhiteSpace
  and LineTerminator from both ends: TAB, LF, VT, FF, CR, SP, NBSP, U+1680, U+2000 to U+200A,
  U+2028, U+2029, U+202F, U+205F, U+3000 and U+FEFF.
\<close>

definition isWhiteSpace :: "nat \<Rightarrow> bool" where
  "isWhiteSpace c \<longleftrightarrow>
     c \<in> set [9, 10, 11, 12, 13, 32, 160, 5760, 8232, 8233, 8239, 8287, 12288, 65279]
     \<or> (8192 \<le> c \<and> c \<le> 8202)"

definition trim :: "jsstring \<Rightarrow> jsstring" where
  "trim s = rev (dropWhile isWhiteSpace (rev (dropWhile isWhiteSpace s)))"

text \<open>\<open>s.split(sep)\<close> for a separator of one code unit; \<open>"".split(",")\<close> is \<open>[""]\<close>.\<close>

fun splitOn :: "nat \<Rightarrow> jsstring \<Rightarrow> jsstring list" where
  "splitOn sep [] = [[]]"
| "splitOn sep (c # cs) =
     (if c = sep then [] # splitOn sep cs
      else (case splitOn sep cs of [] \<Rightarrow> [[c]] | p # ps \<Rightarrow> (c # p) # ps))"

text \<open>\<open>xs.join(sep)\<close>.\<close>

fun join :: "jsstring \<Rightarrow> jsstring list \<Rightarrow> jsstring" where
  "join sep [] = []"
| "join sep [x] = x"
| "join sep (x # y # ys) = x @ sep @ join sep (y # ys)"

text \<open>The decimal digits of a number, as a template literal prints \<open>${titles.length}\<close>.\<close>

fun showNat :: "nat \<Rightarrow> jsstring" where
  "showNat n = (if n < 10 then [48 + n] else showNat (n div 10) @ [48 + n mod 10])"

declare showNat.simps [simp del]

subsection \<open>The regular expressions of the title validation\<close>

text \<open>
  The patterns are \<open>/\<bsol>bor\<bsol>b/i\<close>, \<open>/\<bsol>b(we|you|...)\<bsol>b/i\<close> and \<open>/[\<dots>.]$/\<close>, none with
  the \<open>u\<close> flag. \<open>\<bsol>w\<close> is \<open>[A-Za-z0-9_]\<close>. Under \<open>i\<close> two code units match when
  their canonical forms agree; the canonical form of a code unit is its upper case, except that
  a code unit from 128 on is never mapped to one below 128. A pattern of ASCII letters
  therefore matches exactly the ASCII letters of either case, and \<open>canon\<close> may leave every
  other code unit unchanged.
\<close>

definition isWordChar :: "nat \<Rightarrow> bool" where
  "isWordChar c \<longleftrightarrow> (48 \<le> c \<and> c \<le> 57) \<or> (65 \<le> c \<and> c \<le> 90) \<or> c = 95 \<or> (97 \<le> c \<and> c \<le> 122)"

definition wordBoundary :: "jsstring \<Rightarrow> nat \<Rightarrow> bool" where
  "wordBoundary s p \<longleftrightarrow>
     ((0 < p \<and> p \<le> length s \<and> isWordChar (s ! (p - 1))) \<noteq> (p < length s \<and> isWordChar (s ! p)))"

definition canon :: "nat \<Rightarrow> nat" where
  "canon c = (if 97 \<le> c \<and> c \<le> 122 then c - 32 else c)"

definition ciMatchAt :: "jsstring \<Rightarrow> jsstring \<Rightarrow> nat \<Rightarrow> bool" where
  "ciMatchAt s w i \<longleftrightarrow>
     i + length w \<le> length s \<and> map canon (take (length w) (drop i s)) = map canon w"

text \<open>\<open>/\<bsol>bw\<bsol>b/i.test(s)\<close> for a word \<open>w\<close> of ASCII letters.\<close>

definition hasWord :: "jsstring \<Rightarrow> jsstring \<Rightarrow> bool" where
  "hasWord s w \<longleftrightarrow>
     list_ex (\<lambda>i. wordBoundary s i \<and> ciMatchAt s w i \<and> wordBoundary s (i + length w))
       [0..<Suc (length s)]"

definition fillerWords :: "jsstring list" where
  "fillerWords = map js [''we'', ''you'', ''should'', ''talked'', ''about'', ''add'', ''any'',
     ''others'', ''thinking'']"

text \<open>\<open>/[\<dots>.]$/.test(s)\<close>: the last code unit is U+2026 or a full stop.\<close>

definition endsEllipsisLike :: "jsstring \<Rightarrow> bool" where
  "endsEllipsisLike s \<longleftrightarrow> s \<noteq> [] \<and> (last s = 8230 \<or> last s = 46)"

section \<open>Title resolver: the simple parse (handler.ts)\<close>

definition simpleParseTitle :: "jsstring \<Rightarrow> jsstring list" where
  "simpleParseTitle input =
     (if 44 \<in> set input then filter (\<lambda>t. length t > 0) (map trim (splitOn 44 input))
      else if 10 \<in> set input then filter (\<lambda>t. length t > 0) (map trim (splitOn 10 input))
      else [trim input])"

text \<open>The four checks of the loop body of \<open>isValidSimpleParse\<close>, for one title.\<close>

definition titleLooksValid :: "jsstring \<Rightarrow> bool" where
  "titleLooksValid title \<longleftrightarrow>
     \<not> length title > 100 \<and> \<not> hasWord title (js ''or'')
     \<and> \<not> list_ex (hasWord title) fillerWords \<and> \<not> endsEllipsisLike title"

definition isValidSimpleParse :: "jsstring list \<Rightarrow> bool" where
  "isValidSimpleParse titles = (if length titles = 0 then False else list_all titleLooksValid titles)"

section \<open>Chunked delivery: \<open>splitContent\<close> (index.ts)\<close>

text \<open>
  \<open>s.lastIndexOf(pat, pos)\<close> is the greatest index \<open>k\<close> with \<open>k \<le> min pos (length s)\<close> at
  which \<open>pat\<close> occurs in \<open>s\<close>, and \<open>-1\<close> when there is none; \<open>-1\<close> is \<open>None\<close> here.
\<close>

definition matchesAt :: "jsstring \<Rightarrow> jsstring \<Rightarrow> nat \<Rightarrow> bool" where
  "matchesAt s pat k \<longleftrightarrow> k + length pat \<le> length s \<and> take (length pat) (drop k s) = pat"

fun lastIndexFrom :: "jsstring \<Rightarrow> jsstring \<Rightarrow> nat \<Rightarrow> nat option" where
  "lastIndexFrom s pat 0 = (if matchesAt s pat 0 then Some 0 else None)"
| "lastIndexFrom s pat (Suc k) =
     (if matchesAt s pat (Suc k) then Some (Suc k) else lastIndexFrom s pat k)"

definition lastIndexOf :: "jsstring \<Rightarrow> jsstring \<Rightarrow> nat \<Rightarrow> nat option" where
  "lastIndexOf s pat pos = lastIndexFrom s pat (min pos (length s))"

text \<open>
  The test \<open>splitIndex === -1 || splitIndex < maxLength / 2\<close>. The division is the division
  of JavaScript numbers, so for integers \<open>k < maxLength / 2\<close> is \<open>2 * k < maxLength\<close>.
\<close>

definition tooEarly :: "nat option \<Rightarrow> nat \<Rightarrow> bool" where
  "tooEarly splitIndex maxLength = (case splitIndex of None \<Rightarrow> True | Some k \<Rightarrow> 2 * k < maxLength)"

text \<open>
  The split point of one iteration: the last paragraph break, else the last line break, else
  the last space, else a hard cut at \<open>maxLength\<close>. Code unit 10 is the line feed, 32 the space.
\<close>

definition chooseSplit :: "jsstring \<Rightarrow> nat \<Rightarrow> nat" where
  "chooseSplit remaining maxLength =
     (let s1 = lastIndexOf remaining [10, 10] maxLength;
          s2 = (if tooEarly s1 maxLength then lastIndexOf remaining [10] maxLength else s1);
          s3 = (if tooEarly s2 maxLength then lastIndexOf remaining [32] maxLength else s2)
      in (case s3 of None \<Rightarrow> maxLength | Some k \<Rightarrow> if 2 * k < maxLength then maxLength else k))"

text \<open>
  The \<open>while\<close> loop of \<open>splitContent\<close>, with the array \<open>chunks\<close> as accumulator. The loop
  need not end (with \<open>maxLength = 0\<close> the hard cut removes nothing), so the result is an
  option and \<open>None\<close> stands for a loop that runs forever. \<open>maxLength\<close> is a length, a
  natural number; every call in the program passes the default 1900.
\<close>

partial_function (option) splitLoop :: "nat \<Rightarrow> jsstring list \<Rightarrow> jsstring \<Rightarrow> jsstring list option" where
  "splitLoop maxLength chunks remaining =
     (if length remaining > 0 then
        (if length remaining \<le> maxLength then Some (chunks @ [remaining])
         else splitLoop maxLength
                (chunks @ [trim (take (chooseSplit remaining maxLength) remaining)])
                (trim (drop (chooseSplit remaining maxLength) remaining)))
      else Some chunks)"

declare splitLoop.simps [code]

definition splitContent :: "jsstring \<Rightarrow> nat \<Rightarrow> jsstring list option" where
  "splitContent content maxLength =
     (if length content \<le> maxLength then Some [content] else splitLoop maxLength [] content)"

section \<open>The outside world\<close>

text \<open>
  What a \<open>catch\<close> clause can receive: an \<open>Error\<close> object with its message, or any other
  thrown value. \<open>errorMessage\<close> is the expression
  \<open>error instanceof Error ? error.message : 'Unknown error'\<close>.
\<close>

datatype thrown = ErrorObj jsstring | NonError

definition errorMessage :: "thrown \<Rightarrow> jsstring" where
  "errorMessage e = (case e of ErrorObj m \<Rightarrow> m | NonError \<Rightarrow> js ''Unknown error'')"

text \<open>
  The outcome of one \<open>fetch\<close>: the request (or reading the body of a refused one) rejects;
  the response has \<open>ok\<close> false; the response has \<open>ok\<close> true, and then carries the
  \<open>id\<close> field of its body when the body is JSON and has one (read only after creating a
  thread).
\<close>

datatype reply = Throws thrown | NotOk | Ok "jsstring option"

text \<open>
  The calls that leave the process, in the order in which they are issued: a post to the
  webhook of the interaction (content, ephemeral flag), a post to a thread (thread, content),
  the two ways of creating a thread, a synopsis request for one title and a title-extraction
  request for one text (the two capabilities of the generation provider).
\<close>

datatype event =
    FollowUp jsstring bool
  | ThreadPost jsstring jsstring
  | CreateThread jsstring jsstring
  | CreateThreadFromMessage jsstring jsstring jsstring
  | Generate jsstring
  | Extract jsstring

text \<open>
  The world fixes the environment of one invocation and the outcome of every call. A call is
  identified by its position in the trace of events, so two calls with the same arguments may
  end differently. \<open>jsonParse\<close> is \<open>JSON.parse\<close> restricted to the use made of it, a text
  parsed as an array of strings, with \<open>Inl\<close> for the \<open>SyntaxError\<close>.
\<close>

record world =
  botToken :: bool
  currentProvider :: jsstring
  availableProviders :: "jsstring list"
  fetch :: "nat \<Rightarrow> reply"
  synopsis :: "nat \<Rightarrow> thrown + jsstring"
  completion :: "nat \<Rightarrow> thrown + jsstring option"
  jsonParse :: "jsstring \<Rightarrow> thrown + jsstring list"

text \<open>
  A step of the program takes the trace so far and returns the extended trace with either the
  thrown value or the result; \<open>None\<close> is a step that never returns. \<open>andThen\<close> is the
  sequencing of two \<open>await\<close>s: a thrown value skips what follows.
\<close>

type_synonym 'a step = "(event list \<times> (thrown + 'a)) option"

definition andThen :: "'a step \<Rightarrow> (event list \<Rightarrow> 'a \<Rightarrow> 'b step) \<Rightarrow> 'b step" where
  "andThen m f = (case m of None \<Rightarrow> None
     | Some (tr, Inl e) \<Rightarrow> Some (tr, Inl e)
     | Some (tr, Inr x) \<Rightarrow> f tr x)"

section \<open>Title resolver: the extraction fallback (claude.ts, gemini.ts, handler.ts)\<close>

text \<open>
  \<open>text.match(/\<bsol>[[\<bsol>s\<bsol>S]*\<bsol>]/)\<close>: from the first opening bracket to the last closing
  bracket after it. Code units 91 and 93 are the two brackets.
\<close>

definition firstJsonArray :: "jsstring \<Rightarrow> jsstring option" where
  "firstJsonArray text =
     (case dropWhile (\<lambda>c. c \<noteq> 91) text of
        [] \<Rightarrow> None
      | b # after \<Rightarrow>
          (case dropWhile (\<lambda>c. c \<noteq> 93) (rev after) of
             [] \<Rightarrow> None
           | back \<Rightarrow> Some (b # rev back)))"

text \<open>Both providers wrap whatever their \<open>try\<close> block catches in a new \<open>Error\<close> that
  names the provider.\<close>

definition apiError :: "jsstring \<Rightarrow> thrown \<Rightarrow> thrown" where
  "apiError provider e = ErrorObj (provider @ js '' API error: '' @ errorMessage e)"

text \<open>\<open>ClaudeProvider.extractTitles\<close>. The outcome of \<open>client.messages.create\<close> is the
  thrown value, or the text of the first text block of the answer when there is one.\<close>

definition claudeExtractTitles :: "world \<Rightarrow> event list \<Rightarrow> jsstring \<Rightarrow> event list \<times> (thrown + jsstring list)" where
  "claudeExtractTitles w tr text =
     (let tr' = tr @ [Extract text] in
      case completion w (length tr) of
        Inl e \<Rightarrow> (tr', Inl (apiError (js ''Claude'') e))
      | Inr None \<Rightarrow>
          (tr', Inl (apiError (js ''Claude'') (ErrorObj (js ''No text content in Claude response''))))
      | Inr (Some t) \<Rightarrow>
          (case firstJsonArray t of
             None \<Rightarrow> (tr', Inr [])
           | Some j \<Rightarrow>
               (case jsonParse w j of
                  Inl e \<Rightarrow> (tr', Inl (apiError (js ''Claude'') e))
                | Inr titles \<Rightarrow> (tr', Inr titles))))"

text \<open>\<open>GeminiProvider.extractTitles\<close>: the same steps, except that \<open>response.text()\<close> is
  always a string; an answer without text is the empty string.\<close>

definition geminiExtractTitles :: "world \<Rightarrow> event list \<Rightarrow> jsstring \<Rightarrow> event list \<times> (thrown + jsstring list)" where
  "geminiExtractTitles w tr text =
     (let tr' = tr @ [Extract text] in
      case completion w (length tr) of
        Inl e \<Rightarrow> (tr', Inl (apiError (js ''Gemini'') e))
      | Inr answer \<Rightarrow>
          (case firstJsonArray (case answer of None \<Rightarrow> [] | Some t \<Rightarrow> t) of
             None \<Rightarrow> (tr', Inr [])
           | Some j \<Rightarrow>
               (case jsonParse w j of
                  Inl e \<Rightarrow> (tr', Inl (apiError (js ''Gemini'') e))
                | Inr titles \<Rightarrow> (tr', Inr titles))))"

text \<open>\<open>provider.extractTitles(input)\<close> for the provider that \<open>getProvider()\<close> returned. The
  provider manager holds at most two providers, under the names \<open>gemini\<close> and \<open>claude\<close>.\<close>

definition extractTitles :: "world \<Rightarrow> event list \<Rightarrow> jsstring \<Rightarrow> event list \<times> (thrown + jsstring list)" where
  "extractTitles w tr text =
     (if currentProvider w = js ''gemini'' then geminiExtractTitles w tr text
      else claudeExtractTitles w tr text)"

text \<open>\<open>LLMProviderManager.getProvider()\<close> throws when no provider is configured under the
  current name.\<close>

definition providerMissing :: "world \<Rightarrow> thrown" where
  "providerMissing w =
     ErrorObj (js ''Provider '' @ [39] @ currentProvider w @ [39]
       @ js '' not available. Available providers: '' @ join (js '', '') (availableProviders w))"

definition parseTitles :: "world \<Rightarrow> event list \<Rightarrow> jsstring \<Rightarrow> event list \<times> (thrown + jsstring list)" where
  "parseTitles w tr input =
     (let simpleTitles = simpleParseTitle input in
      if isValidSimpleParse simpleTitles then (tr, Inr simpleTitles)
      else if currentProvider w \<in> set (availableProviders w) then extractTitles w tr input
      else (tr, Inl (providerMissing w)))"

section \<open>Batch generation (handler.ts)\<close>

text \<open>The optional field \<open>error\<close> is a boolean here, \<open>False\<close> when the field is absent.\<close>

record SynopsisResult =
  title :: jsstring
  content :: jsstring
  error :: bool

text \<open>
  The body of the callback of \<open>titles.map\<close>: the \<open>try\<close> branch for a synopsis, the
  \<open>catch\<close> branch for a thrown value. Code unit 10060 is the cross mark U+274C.
\<close>

definition synopsisResult :: "jsstring \<Rightarrow> thrown + jsstring \<Rightarrow> SynopsisResult" where
  "synopsisResult t outcome =
     (case outcome of
        Inr s \<Rightarrow> \<lparr>title = t, content = js ''## '' @ t @ [10, 10] @ s, error = False\<rparr>
      | Inl e \<Rightarrow> \<lparr>title = t,
          content = js ''## '' @ t @ [10, 10] @ [10060] @ js '' Error: '' @ errorMessage e,
          error = True\<rparr>)"

text \<open>
  \<open>titles.map\<close> calls the callback for each title in order, and each callback issues its
  request before it first suspends; \<open>Promise.all\<close> returns the results in the order of the
  promises. The callbacks catch every thrown value, so the batch itself never throws.
\<close>

fun generateBatchSynopses :: "world \<Rightarrow> event list \<Rightarrow> jsstring list \<Rightarrow> event list \<times> SynopsisResult list" where
  "generateBatchSynopses w tr [] = (tr, [])"
| "generateBatchSynopses w tr (t # ts) =
     (case generateBatchSynopses w (tr @ [Generate t]) ts of
        (tr', rs) \<Rightarrow> (tr', synopsisResult t (synopsis w (length tr)) # rs))"

section \<open>Delivery and routing (index.ts)\<close>

text \<open>
  The pauses between two posts (\<open>setTimeout\<close>) and the console output leave no event in the
  trace and are not modelled.
\<close>

text \<open>The loop of \<open>sendFollowUp\<close>; its \<open>try\<close> block swallows a rejected request.\<close>

fun postFollowUps :: "world \<Rightarrow> event list \<Rightarrow> bool \<Rightarrow> jsstring list \<Rightarrow> event list" where
  "postFollowUps w tr ephemeral [] = tr"
| "postFollowUps w tr ephemeral (c # cs) =
     (case fetch w (length tr) of
        Ok b \<Rightarrow> postFollowUps w (tr @ [FollowUp c ephemeral]) ephemeral cs
      | NotOk \<Rightarrow> tr @ [FollowUp c ephemeral]
      | Throws e \<Rightarrow> tr @ [FollowUp c ephemeral])"

definition sendFollowUp :: "world \<Rightarrow> event list \<Rightarrow> jsstring \<Rightarrow> bool \<Rightarrow> unit step" where
  "sendFollowUp w tr text ephemeral =
     map_option (\<lambda>chunks. (postFollowUps w tr ephemeral chunks, Inr ())) (splitContent text 1900)"

text \<open>The loop of \<open>sendToThread\<close>, which has no \<open>try\<close> block.\<close>

fun postToThread :: "world \<Rightarrow> event list \<Rightarrow> jsstring \<Rightarrow> jsstring list \<Rightarrow> event list \<times> (thrown + unit)" where
  "postToThread w tr threadId [] = (tr, Inr ())"
| "postToThread w tr threadId (c # cs) =
     (case fetch w (length tr) of
        Ok b \<Rightarrow> postToThread w (tr @ [ThreadPost threadId c]) threadId cs
      | NotOk \<Rightarrow> (tr @ [ThreadPost threadId c], Inr ())
      | Throws e \<Rightarrow> (tr @ [ThreadPost threadId c], Inl e))"

definition sendToThread :: "world \<Rightarrow> event list \<Rightarrow> jsstring \<Rightarrow> jsstring \<Rightarrow> unit step" where
  "sendToThread w tr threadId text =
     (if \<not> botToken w then Some (tr, Inr ())
      else map_option (postToThread w tr threadId) (splitContent text 1900))"

fun sendBatchToThread :: "world \<Rightarrow> event list \<Rightarrow> jsstring \<Rightarrow> SynopsisResult list \<Rightarrow> unit step" where
  "sendBatchToThread w tr threadId [] = Some (tr, Inr ())"
| "sendBatchToThread w tr threadId (r # rs) =
     andThen (sendToThread w tr threadId (content r)) (\<lambda>tr' u. sendBatchToThread w tr' threadId rs)"

text \<open>The inner loop of \<open>sendBatchResults\<close>, over the chunks of one synopsis.\<close>

fun postChunks :: "world \<Rightarrow> event list \<Rightarrow> jsstring list \<Rightarrow> event list \<times> (thrown + unit)" where
  "postChunks w tr [] = (tr, Inr ())"
| "postChunks w tr (c # cs) =
     (case fetch w (length tr) of
        Ok b \<Rightarrow> postChunks w (tr @ [FollowUp c False]) cs
      | NotOk \<Rightarrow> (tr @ [FollowUp c False], Inr ())
      | Throws e \<Rightarrow> (tr @ [FollowUp c False], Inl e))"

fun sendBatchResults :: "world \<Rightarrow> event list \<Rightarrow> SynopsisResult list \<Rightarrow> unit step" where
  "sendBatchResults w tr [] = Some (tr, Inr ())"
| "sendBatchResults w tr (r # rs) =
     andThen (map_option (postChunks w tr) (splitContent (content r) 1900))
       (\<lambda>tr' u. sendBatchResults w tr' rs)"

text \<open>
  Thread creation returns the identifier of the thread, or \<open>null\<close> (\<open>None\<close>) when the bot
  token is missing, the request rejects, the response is refused or its body is not JSON. A
  body without \<open>id\<close> gives \<open>undefined\<close>, which the caller's test \<open>if (threadId)\<close>
  treats like \<open>null\<close>.
\<close>

definition createStandaloneThread :: "world \<Rightarrow> event list \<Rightarrow> jsstring \<Rightarrow> jsstring \<Rightarrow> event list \<times> jsstring option" where
  "createStandaloneThread w tr channelId threadName =
     (if \<not> botToken w then (tr, None)
      else (tr @ [CreateThread channelId (take 100 threadName)],
            case fetch w (length tr) of Ok (Some i) \<Rightarrow> Some i | _ \<Rightarrow> None))"

definition createThreadFromMessage :: "world \<Rightarrow> event list \<Rightarrow> jsstring \<Rightarrow> jsstring \<Rightarrow> jsstring \<Rightarrow> event list \<times> jsstring option" where
  "createThreadFromMessage w tr channelId messageId threadName =
     (if \<not> botToken w then (tr, None)
      else (tr @ [CreateThreadFromMessage channelId messageId (take 100 threadName)],
            case fetch w (length tr) of Ok (Some i) \<Rightarrow> Some i | _ \<Rightarrow> None))"

text \<open>The truthiness of \<open>threadId\<close> and of \<open>messageContent\<close>: neither null nor empty.\<close>

definition truthy :: "jsstring option \<Rightarrow> bool" where
  "truthy v = (case v of None \<Rightarrow> False | Some s \<Rightarrow> s \<noteq> [])"

section \<open>The deferred pipeline: \<open>processDeferred\<close> (index.ts)\<close>

text \<open>
  The two batch invocations. A message command carries its name, the result of
  \<open>getMessageCommandContent\<close>, the identifier of the target message and the channel; the
  slash command \<open>synopsis-batch\<close> carries the value of its option \<open>titles\<close> (the empty
  string when the option is absent), the value of its option \<open>thread\<close> and the channel. The
  single-title commands and the poll are not part of this model.
\<close>

datatype invocation =
    MessageCommand jsstring "jsstring option" jsstring jsstring
  | SynopsisBatch jsstring bool jsstring

text \<open>The texts of the messages. Code units 55357, 56538 are the books emoji U+1F4DA, 9989 is
  the check mark U+2705.\<close>

definition tooManyMessage :: "nat \<Rightarrow> jsstring" where
  "tooManyMessage n = [10060] @ js '' Too many books ('' @ showNat n @ js ''). Maximum 10 per batch.''"

definition processingMessage :: "jsstring list \<Rightarrow> jsstring" where
  "processingMessage titles =
     [55357, 56538] @ js '' Processing '' @ showNat (length titles) @ js '' book(s): ''
       @ join (js '', '') titles @ [10, 10] @ js ''_Synopses will appear below as they complete..._''"

definition threadName :: "jsstring list \<Rightarrow> jsstring" where
  "threadName titles =
     [55357, 56538] @ js '' Book Synopses ('' @ showNat (length titles) @ js '' books)''"

definition threadIntro :: "jsstring list \<Rightarrow> jsstring" where
  "threadIntro titles =
     js ''Processing synopses for:'' @ [10]
       @ join [10] (map (\<lambda>(i, t). showNat (Suc i) @ js ''. '' @ t) (enumerate 0 titles))"

definition doneMessage :: "jsstring list \<Rightarrow> jsstring" where
  "doneMessage titles =
     [9989] @ js '' Synopses generated for '' @ showNat (length titles) @ js '' book(s) in thread.''"

text \<open>
  Delivery to the channel: the announcement, the batch, the synopses in order. The program
  has this block twice, after a failed thread creation of the message command and at the end
  of the slash command.
\<close>

definition deliverToChannel :: "world \<Rightarrow> event list \<Rightarrow> jsstring list \<Rightarrow> unit step" where
  "deliverToChannel w tr titles =
     andThen (sendFollowUp w tr (processingMessage titles) False)
       (\<lambda>tr1 u. case generateBatchSynopses w tr1 titles of
          (tr2, results) \<Rightarrow> sendBatchResults w tr2 results)"

text \<open>Delivery to a thread: the list of titles, the batch, the synopses in order, and the
  ephemeral acknowledgment. The program has this block twice as well.\<close>

definition deliverToThread :: "world \<Rightarrow> event list \<Rightarrow> jsstring \<Rightarrow> jsstring list \<Rightarrow> unit step" where
  "deliverToThread w tr threadId titles =
     andThen (sendToThread w tr threadId (threadIntro titles))
       (\<lambda>tr1 u. case generateBatchSynopses w tr1 titles of
          (tr2, results) \<Rightarrow>
            andThen (sendBatchToThread w tr2 threadId results)
              (\<lambda>tr3 u. sendFollowUp w tr3 (doneMessage titles) True))"

text \<open>The \<open>try\<close> block of \<open>processDeferred\<close>, for the two batch invocations.\<close>

fun processBody :: "world \<Rightarrow> invocation \<Rightarrow> unit step" where
  "processBody w (MessageCommand name messageContent targetId channelId) =
     (if name = js ''Generate Synopses'' then
        (case messageContent of
           None \<Rightarrow> sendFollowUp w [] ([10060] @ js '' Could not read the message content'') False
         | Some text \<Rightarrow>
             if text = [] then
               sendFollowUp w [] ([10060] @ js '' Could not read the message content'') False
             else
               andThen (Some (parseTitles w [] text))
                 (\<lambda>tr titles.
                    if length titles = 0 then
                      sendFollowUp w tr
                        ([10060] @ js '' Could not find any book titles in that message'') False
                    else if length titles > 10 then
                      sendFollowUp w tr (tooManyMessage (length titles)) False
                    else
                      (case createThreadFromMessage w tr channelId targetId (threadName titles) of
                         (tr', threadId) \<Rightarrow>
                           if \<not> truthy threadId then deliverToChannel w tr' titles
                           else (case threadId of
                                   None \<Rightarrow> deliverToChannel w tr' titles
                                 | Some i \<Rightarrow> deliverToThread w tr' i titles))))
      else sendFollowUp w [] ([10060] @ js '' Unknown message command'') False)"
| "processBody w (SynopsisBatch titlesString useThread channelId) =
     andThen (Some (parseTitles w [] titlesString))
       (\<lambda>tr titles.
          if length titles = 0 then
            sendFollowUp w tr ([10060] @ js '' Could not find any book titles in your input'') False
          else if length titles > 10 then
            sendFollowUp w tr (tooManyMessage (length titles)) False
          else if useThread then
            (case createStandaloneThread w tr channelId (threadName titles) of
               (tr', threadId) \<Rightarrow>
                 if truthy threadId then
                   (case threadId of
                      None \<Rightarrow> deliverToChannel w tr' titles
                    | Some i \<Rightarrow> deliverToThread w tr' i titles)
                 else deliverToChannel w tr' titles)
          else deliverToChannel w tr titles)"

text \<open>
  \<open>processDeferred\<close> with its \<open>catch\<close> clause: a thrown value becomes one more follow-up.
  The result is the trace of the whole invocation; returning it is the state Done.
\<close>

definition processDeferred :: "world \<Rightarrow> invocation \<Rightarrow> event list option" where
  "processDeferred w cmd =
     (case processBody w cmd of
        None \<Rightarrow> None
      | Some (tr, Inr u) \<Rightarrow> Some tr
      | Some (tr, Inl e) \<Rightarrow>
          map_option fst (sendFollowUp w tr ([10060] @ js '' Error: '' @ errorMessage e) False))"

section \<open>Worlds for the worked examples\<close>

text \<open>
  A world in which everything works: the bot token is set, the provider is configured, every
  request is accepted, every synopsis request returns a text, and the extraction request is
  answered with a JSON array of eleven titles. \<open>exampleJsonParse\<close> stands for
  \<open>JSON.parse\<close> on that one text.
\<close>

definition elevenTitles :: "jsstring list" where
  "elevenTitles = map js [''a'', ''b'', ''c'', ''d'', ''e'', ''f'', ''g'', ''h'', ''i'', ''j'', ''k'']"

definition elevenJson :: jsstring where
  "elevenJson = [91] @ join [44] (map (\<lambda>t. [34] @ t @ [34]) elevenTitles) @ [93]"

definition exampleJsonParse :: "jsstring \<Rightarrow> thrown + jsstring list" where
  "exampleJsonParse s =
     (if s = elevenJson then Inr elevenTitles else Inl (ErrorObj (js ''Unexpected token'')))"

definition calmWorld :: world where
  "calmWorld = \<lparr>botToken = True, currentProvider = js ''claude'',
     availableProviders = [js ''claude''],
     fetch = (\<lambda>n. Ok None),
     synopsis = (\<lambda>n. Inr (js ''A synopsis.'')),
     completion = (\<lambda>n. Inr (Some elevenJson)),
     jsonParse = exampleJsonParse\<rparr>"

text \<open>The same world with the provider's API failing, with a provider that answers in prose,
  with the second synopsis request failing, and with the first request refused.\<close>

definition apiDownWorld :: world where
  "apiDownWorld = calmWorld\<lparr>completion := (\<lambda>n. Inl (ErrorObj (js ''fetch failed'')))\<rparr>"

definition proseWorld :: world where
  "proseWorld = calmWorld\<lparr>completion := (\<lambda>n. Inr (Some (js ''I found no titles.'')))\<rparr>"

definition flakyWorld :: world where
  "flakyWorld = calmWorld\<lparr>synopsis :=
     (\<lambda>n. if n = 1 then Inl (ErrorObj (js ''boom'')) else Inr (js ''A synopsis.''))\<rparr>"

definition firstRefusedWorld :: world where
  "firstRefusedWorld = calmWorld\<lparr>fetch := (\<lambda>n. if n = 0 then NotOk else Ok None)\<rparr>"

text \<open>A world in which request \<open>k\<close> rejects and every other request is accepted, a created
  thread having the identifier \<open>t1\<close>.\<close>

definition rejectedAt :: "nat \<Rightarrow> world" where
  "rejectedAt k = calmWorld\<lparr>fetch :=
     (\<lambda>n. if n = k then Throws (ErrorObj (js ''fetch failed'')) else Ok (Some (js ''t1'')))\<rparr>"

text \<open>A text of 1901 letters, one more than a message holds, and two results to deliver.\<close>

definition longText :: jsstring where
  "longText = replicate 1901 98"

text \<open>A letter, a run of 1899 spaces, and the 1901 letters.\<close>

definition paddedText :: jsstring where
  "paddedText = 97 # replicate 1899 32 @ longText"

text \<open>Two texts of fifteen code units: a paragraph break followed by a line break, and a
  line break followed by spaces.\<close>

definition paragraphText :: jsstring where
  "paragraphText = js ''aaaaaa'' @ [10, 10] @ js ''b'' @ [10] @ js ''cc dd''"

definition lineText :: jsstring where
  "lineText = js ''aaaaaa'' @ [10] @ js ''bb cc dd''"

definition longResult :: SynopsisResult where
  "longResult = \<lparr>title = js ''Long'', content = longText, error = False\<rparr>"

definition shortResult :: SynopsisResult where
  "shortResult = \<lparr>title = js ''Short'', content = js ''two'', error = False\<rparr>"

section \<open>Notions used to state the properties\<close>

text \<open>A string of white space only.\<close>

definition blank :: "jsstring \<Rightarrow> bool" where
  "blank s \<longleftrightarrow> list_all isWhiteSpace s"

text \<open>\<open>pat\<close> occurs in \<open>s\<close> at an index between \<open>m / 2\<close> and \<open>m\<close>.\<close>

definition occursFromMidpoint :: "jsstring \<Rightarrow> jsstring \<Rightarrow> nat \<Rightarrow> bool" where
  "occursFromMidpoint s pat m \<longleftrightarrow> list_ex (\<lambda>i. m \<le> 2 * i \<and> matchesAt s pat i) [0..<Suc m]"

text \<open>\<open>k\<close> is the last index up to \<open>m\<close> at which \<open>pat\<close> occurs in \<open>s\<close>.\<close>

definition lastOccurrence :: "jsstring \<Rightarrow> jsstring \<Rightarrow> nat \<Rightarrow> nat \<Rightarrow> bool" where
  "lastOccurrence s pat m k \<longleftrightarrow>
     k \<le> m \<and> matchesAt s pat k \<and> list_all (\<lambda>j. matchesAt s pat j \<longrightarrow> j \<le> k) [0..<Suc m]"

text \<open>The text has an opening bracket with a closing bracket somewhere after it.\<close>

definition hasBracketedSpan :: "jsstring \<Rightarrow> bool" where
  "hasBracketedSpan t \<longleftrightarrow>
     list_ex (\<lambda>i. t ! i = 91 \<and> list_ex (\<lambda>j. t ! j = 93) [Suc i..<length t]) [0..<length t]"

text \<open>The name by which the current provider calls itself in its error messages.\<close>

definition providerLabel :: "world \<Rightarrow> jsstring" where
  "providerLabel w = (if currentProvider w = js ''gemini'' then js ''Gemini'' else js ''Claude'')"


text \<open>The events that are synopsis requests, and those that are posts to a thread.\<close>

fun isGenerate :: "event \<Rightarrow> bool" where
  "isGenerate (Generate t) = True"
| "isGenerate e = False"

fun isThreadPost :: "event \<Rightarrow> bool" where
  "isThreadPost (ThreadPost i c) = True"
| "isThreadPost e = False"

section \<open>Properties of the chunk splitter\<close>

subsection \<open>Trimming\<close>

lemma rev_split_dropWhile:
  "xs = rev (dropWhile P (rev xs)) @ rev (takeWhile P (rev xs))"
  by (metis rev_append rev_rev_ident takeWhile_dropWhile_id)

lemma trim_decomp:
  "\<exists>a b. s = a @ trim s @ b \<and> (\<forall>x\<in>set a. isWhiteSpace x) \<and> (\<forall>x\<in>set b. isWhiteSpace x)"
proof -
  let ?u = "dropWhile isWhiteSpace s"
  have s: "s = takeWhile isWhiteSpace s @ ?u" by simp
  have "?u = rev (dropWhile isWhiteSpace (rev ?u)) @ rev (takeWhile isWhiteSpace (rev ?u))"
    by (rule rev_split_dropWhile)
  then have u: "?u = trim s @ rev (takeWhile isWhiteSpace (rev ?u))"
    unfolding trim_def .
  have a: "\<forall>x\<in>set (takeWhile isWhiteSpace s). isWhiteSpace x"
    by (meson set_takeWhileD)
  have b: "\<forall>x\<in>set (rev (takeWhile isWhiteSpace (rev ?u))). isWhiteSpace x"
    by (metis set_rev set_takeWhileD)
  from s u have "s = takeWhile isWhiteSpace s @ trim s @ rev (takeWhile isWhiteSpace (rev ?u))"
    by metis
  with a b show ?thesis by blast
qed

lemma length_trim_le: "length (trim s) \<le> length s"
proof -
  have "length (trim s) \<le> length (dropWhile isWhiteSpace s)"
    unfolding trim_def by (metis length_dropWhile_le length_rev)
  also have "\<dots> \<le> length s" by (rule length_dropWhile_le)
  finally show ?thesis .
qed

lemma dropWhile_id: "xs = [] \<or> \<not> P (hd xs) \<Longrightarrow> dropWhile P xs = xs"
  by (cases xs) auto

lemma dropWhile_hd: "dropWhile P xs = [] \<or> \<not> P (hd (dropWhile P xs))"
  by (metis hd_dropWhile)

lemma trim_ends: "trim s = [] \<or> (\<not> isWhiteSpace (hd (trim s)) \<and> \<not> isWhiteSpace (last (trim s)))"
proof (cases "trim s = []")
  case True then show ?thesis by simp
next
  case False
  let ?u = "dropWhile isWhiteSpace s"
  let ?v = "dropWhile isWhiteSpace (rev ?u)"
  have t: "trim s = rev ?v" by (simp add: trim_def)
  with False have v: "?v \<noteq> []" by simp
  then have hv: "\<not> isWhiteSpace (hd ?v)" by (metis hd_dropWhile)
  then have l: "\<not> isWhiteSpace (last (trim s))" using v t by (simp add: last_rev)
  have u: "?u = rev ?v @ rev (takeWhile isWhiteSpace (rev ?u))"
    by (rule rev_split_dropWhile)
  from v have "rev ?v \<noteq> []" by simp
  with u have "hd ?u = hd (rev ?v)" by (metis hd_append2)
  moreover have "?u \<noteq> []" using u v by (metis Nil_is_append_conv rev_is_Nil_conv)
  then have "\<not> isWhiteSpace (hd ?u)" by (metis hd_dropWhile)
  ultimately have "\<not> isWhiteSpace (hd (trim s))" using t by simp
  with l show ?thesis by simp
qed

lemma trim_fixed:
  assumes "t = [] \<or> (\<not> isWhiteSpace (hd t) \<and> \<not> isWhiteSpace (last t))"
  shows "trim t = t"
proof (cases "t = []")
  case True then show ?thesis by (simp add: trim_def)
next
  case False
  with assms have h: "\<not> isWhiteSpace (hd t)" and l: "\<not> isWhiteSpace (last t)" by auto
  from False h have d: "dropWhile isWhiteSpace t = t" by (simp add: dropWhile_id)
  from False l have "\<not> isWhiteSpace (hd (rev t))" by (simp add: hd_rev)
  then have "dropWhile isWhiteSpace (rev t) = rev t" by (simp add: dropWhile_id)
  with d show ?thesis by (simp add: trim_def)
qed

lemma trim_idem: "trim (trim s) = trim s"
  by (rule trim_fixed) (rule trim_ends)

subsection \<open>The split point\<close>

lemma lastIndexFrom_le: "lastIndexFrom s pat n = Some k \<Longrightarrow> k \<le> n"
  by (induction n) (auto split: if_splits)

lemma lastIndexFrom_matches: "lastIndexFrom s pat n = Some k \<Longrightarrow> matchesAt s pat k"
  by (induction n) (auto split: if_splits)

lemma lastIndexFrom_greatest:
  "lastIndexFrom s pat n = Some k \<Longrightarrow> j \<le> n \<Longrightarrow> matchesAt s pat j \<Longrightarrow> j \<le> k"
proof (induction n)
  case 0
  then show ?case by simp
next
  case (Suc n)
  show ?case
  proof (cases "matchesAt s pat (Suc n)")
    case True
    with Suc.prems show ?thesis by simp
  next
    case False
    with Suc.prems have "j \<noteq> Suc n" by auto
    with Suc.prems have "j \<le> n" by simp
    moreover from False Suc.prems have "lastIndexFrom s pat n = Some k" by simp
    ultimately show ?thesis using Suc.IH Suc.prems by blast
  qed
qed

lemma lastIndexFrom_None:
  "lastIndexFrom s pat n = None \<Longrightarrow> j \<le> n \<Longrightarrow> \<not> matchesAt s pat j"
proof (induction n)
  case 0
  then show ?case by (auto split: if_splits)
next
  case (Suc n)
  from Suc.prems have no: "\<not> matchesAt s pat (Suc n)" and rest: "lastIndexFrom s pat n = None"
    by (auto split: if_splits)
  show ?case
  proof (cases "j = Suc n")
    case True
    with no show ?thesis by simp
  next
    case False
    with Suc.prems have "j \<le> n" by simp
    with rest Suc.IH show ?thesis by blast
  qed
qed

lemma matchesAt_le_length: "matchesAt s pat j \<Longrightarrow> j \<le> length s"
  by (simp add: matchesAt_def)

lemma lastIndexOf_Some_iff:
  "lastIndexOf s pat pos = Some k \<longleftrightarrow>
     matchesAt s pat k \<and> k \<le> pos \<and> (\<forall>j. matchesAt s pat j \<and> j \<le> pos \<longrightarrow> j \<le> k)"
proof
  assume a: "lastIndexOf s pat pos = Some k"
  then have f: "lastIndexFrom s pat (min pos (length s)) = Some k" by (simp add: lastIndexOf_def)
  have "\<And>j. matchesAt s pat j \<Longrightarrow> j \<le> pos \<Longrightarrow> j \<le> k"
  proof -
    fix j assume m: "matchesAt s pat j" and "j \<le> pos"
    then have "j \<le> min pos (length s)" using matchesAt_le_length [of s pat j] by simp
    from lastIndexFrom_greatest [OF f this m] show "j \<le> k" .
  qed
  moreover have "k \<le> pos" using lastIndexFrom_le [OF f] by simp
  ultimately show "matchesAt s pat k \<and> k \<le> pos \<and> (\<forall>j. matchesAt s pat j \<and> j \<le> pos \<longrightarrow> j \<le> k)"
    using lastIndexFrom_matches [OF f] by blast
next
  assume b: "matchesAt s pat k \<and> k \<le> pos \<and> (\<forall>j. matchesAt s pat j \<and> j \<le> pos \<longrightarrow> j \<le> k)"
  then have kn: "k \<le> min pos (length s)" using matchesAt_le_length [of s pat k] by simp
  show "lastIndexOf s pat pos = Some k"
  proof (cases "lastIndexFrom s pat (min pos (length s))")
    case None
    from lastIndexFrom_None [OF None kn] b show ?thesis by simp
  next
    case (Some k')
    have "k \<le> k'" using lastIndexFrom_greatest [OF Some kn] b by simp
    moreover have "matchesAt s pat k'" "k' \<le> pos"
      using lastIndexFrom_matches [OF Some] lastIndexFrom_le [OF Some] by simp_all
    with b have "k' \<le> k" by blast
    ultimately show ?thesis using Some by (simp add: lastIndexOf_def)
  qed
qed

lemma lastIndexOf_None_iff:
  "lastIndexOf s pat pos = None \<longleftrightarrow> (\<forall>j. matchesAt s pat j \<longrightarrow> pos < j)"
proof
  assume "lastIndexOf s pat pos = None"
  then have f: "lastIndexFrom s pat (min pos (length s)) = None" by (simp add: lastIndexOf_def)
  show "\<forall>j. matchesAt s pat j \<longrightarrow> pos < j"
  proof (intro allI impI)
    fix j assume m: "matchesAt s pat j"
    show "pos < j"
    proof (rule ccontr)
      assume "\<not> pos < j"
      then have "j \<le> min pos (length s)" using m matchesAt_le_length [of s pat j] by simp
      from lastIndexFrom_None [OF f this] m show False by simp
    qed
  qed
next
  assume a: "\<forall>j. matchesAt s pat j \<longrightarrow> pos < j"
  show "lastIndexOf s pat pos = None"
  proof (cases "lastIndexOf s pat pos")
    case None then show ?thesis .
  next
    case (Some k)
    then have "matchesAt s pat k \<and> k \<le> pos" by (simp add: lastIndexOf_Some_iff)
    with a show ?thesis by fastforce
  qed
qed

lemma lastIndexOf_le: "lastIndexOf s pat pos = Some k \<Longrightarrow> k \<le> pos"
  by (simp add: lastIndexOf_Some_iff)

lemma chooseSplit_le: "chooseSplit r m \<le> m"
  by (auto simp: chooseSplit_def Let_def tooEarly_def dest: lastIndexOf_le split: option.splits)

lemma chooseSplit_ge: "m \<le> 2 * chooseSplit r m"
  by (auto simp: chooseSplit_def Let_def split: option.splits)

subsection \<open>The loop of \<open>splitContent\<close>\<close>

lemma splitLoop_Nil: "splitLoop m acc [] = Some acc"
  by (subst splitLoop.simps) simp

lemma splitLoop_fits: "r \<noteq> [] \<Longrightarrow> length r \<le> m \<Longrightarrow> splitLoop m acc r = Some (acc @ [r])"
  by (subst splitLoop.simps) simp

lemma splitLoop_cut:
  "m < length r \<Longrightarrow>
     splitLoop m acc r =
       splitLoop m (acc @ [trim (take (chooseSplit r m) r)]) (trim (drop (chooseSplit r m) r))"
  by (subst splitLoop.simps) auto

lemma splitLoop_returns: "1 \<le> m \<Longrightarrow> \<exists>out. splitLoop m acc r = Some out"
proof (induction r arbitrary: acc rule: length_induct)
  case (1 r)
  show ?case
  proof (cases "m < length r")
    case False
    then show ?thesis
      by (cases "r = []") (simp_all add: splitLoop_Nil splitLoop_fits)
  next
    case True
    let ?k = "chooseSplit r m"
    from \<open>1 \<le> m\<close> chooseSplit_ge [of m r] have "0 < ?k" by simp
    moreover have "?k \<le> m" by (rule chooseSplit_le)
    ultimately have "length (drop ?k r) < length r" using True by simp
    with length_trim_le [of "drop ?k r"] have "length (trim (drop ?k r)) < length r" by simp
    with "1.IH" "1.prems" obtain out where
      "splitLoop m (acc @ [trim (take ?k r)]) (trim (drop ?k r)) = Some out" by blast
    with True show ?thesis by (simp add: splitLoop_cut)
  qed
qed

lemmas splitLoop_induct = splitLoop.raw_induct [rotated 1, consumes 1, case_names step]

lemma splitLoop_bounded:
  "splitLoop m acc r = Some out \<Longrightarrow> \<forall>c\<in>set acc. length c \<le> m \<Longrightarrow> \<forall>c\<in>set out. length c \<le> m"
proof (induction m acc r out rule: splitLoop_induct)
  case (step f m acc r out)
  show ?case
  proof (cases "r = []")
    case True
    with step.hyps step.prems show ?thesis by simp
  next
    case False
    show ?thesis
    proof (cases "length r \<le> m")
      case True
      with False step.hyps step.prems show ?thesis by auto
    next
      case big: False
      let ?k = "chooseSplit r m"
      from False big step.hyps
      have rec: "f m (acc @ [trim (take ?k r)]) (trim (drop ?k r)) = Some out" by simp
      have "length (trim (take ?k r)) \<le> length (take ?k r)" by (rule length_trim_le)
      also have "\<dots> \<le> ?k" by simp
      also have "\<dots> \<le> m" by (rule chooseSplit_le)
      finally have "\<forall>c\<in>set (acc @ [trim (take ?k r)]). length c \<le> m"
        using step.prems by simp
      with step.IH [OF rec] show ?thesis by blast
    qed
  qed
qed

lemma blank_simps [simp]: "blank []" "blank (a @ b) \<longleftrightarrow> blank a \<and> blank b"
  by (simp_all add: blank_def)

lemma trim_blank_decomp: "\<exists>a b. s = a @ trim s @ b \<and> blank a \<and> blank b"
  using trim_decomp [of s] by (auto simp: blank_def list_all_iff)

lemma weave_snoc:
  "length gaps = length xs \<Longrightarrow>
     concat (map2 (@) (gaps @ [g]) (xs @ [x])) = concat (map2 (@) gaps xs) @ g @ x"
  by simp

lemma splitLoop_pieces:
  "splitLoop m acc r = Some out \<Longrightarrow> acc = map trim pcs \<Longrightarrow> length gaps = length pcs \<Longrightarrow>
   \<forall>g\<in>set gaps. blank g \<Longrightarrow> blank g0 \<Longrightarrow> blank suf \<Longrightarrow>
   \<forall>p\<in>set pcs. m \<le> 2 * length p \<and> length p \<le> m \<Longrightarrow> trim r = r \<or> m < length r \<Longrightarrow>
   \<exists>pcs' gaps' tail. out = map trim pcs' \<and> length gaps' = length pcs' \<and> (\<forall>g\<in>set gaps'. blank g)
      \<and> blank tail \<and> (\<forall>p\<in>set (butlast pcs'). m \<le> 2 * length p \<and> length p \<le> m)
      \<and> concat (map2 (@) gaps pcs) @ g0 @ r @ suf = concat (map2 (@) gaps' pcs') @ tail"
proof (induction m acc r out arbitrary: pcs gaps g0 suf rule: splitLoop_induct)
  case (step f m acc r out)
  show ?case
  proof (cases "r = []")
    case True
    with step.hyps have "out = acc" by simp
    with step.prems True show ?thesis
      by (intro exI [of _ pcs] exI [of _ gaps] exI [of _ "g0 @ suf"]) (auto dest: in_set_butlastD)
  next
    case False
    show ?thesis
    proof (cases "length r \<le> m")
      case True
      with False step.hyps have out: "out = acc @ [r]" by simp
      from True step.prems have "trim r = r" by simp
      with out step.prems show ?thesis
        by (intro exI [of _ "pcs @ [r]"] exI [of _ "gaps @ [g0]"] exI [of _ suf]) simp
    next
      case big: False
      let ?k = "chooseSplit r m"
      let ?p = "take ?k r"
      let ?q = "drop ?k r"
      from False big step.hyps
      have rec: "f m (acc @ [trim ?p]) (trim ?q) = Some out" by simp
      obtain a b where q: "?q = a @ trim ?q @ b" and ab: "blank a" "blank b"
        using trim_blank_decomp [of ?q] by blast
      have "?k \<le> m" by (rule chooseSplit_le)
      with big have lp: "length ?p = ?k" by simp
      have bounds: "\<forall>p\<in>set (pcs @ [?p]). m \<le> 2 * length p \<and> length p \<le> m"
        using step.prems(6) lp chooseSplit_le [of r m] chooseSplit_ge [of m r] by simp
      have "\<exists>pcs' gaps' tail. out = map trim pcs' \<and> length gaps' = length pcs'
          \<and> (\<forall>g\<in>set gaps'. blank g) \<and> blank tail
          \<and> (\<forall>p\<in>set (butlast pcs'). m \<le> 2 * length p \<and> length p \<le> m)
          \<and> concat (map2 (@) (gaps @ [g0]) (pcs @ [?p])) @ a @ trim ?q @ (b @ suf)
              = concat (map2 (@) gaps' pcs') @ tail"
      proof (rule step.IH [OF rec])
        show "acc @ [trim ?p] = map trim (pcs @ [?p])" using step.prems(1) by simp
        show "length (gaps @ [g0]) = length (pcs @ [?p])" using step.prems(2) by simp
        show "\<forall>g\<in>set (gaps @ [g0]). blank g" using step.prems(3,4) by simp
        show "blank a" by (rule ab)
        show "blank (b @ suf)" using ab step.prems(5) by simp
        show "\<forall>p\<in>set (pcs @ [?p]). m \<le> 2 * length p \<and> length p \<le> m" by (rule bounds)
        show "trim (trim ?q) = trim ?q \<or> m < length (trim ?q)" by (simp add: trim_idem)
      qed
      moreover have "concat (map2 (@) (gaps @ [g0]) (pcs @ [?p])) @ a @ trim ?q @ (b @ suf)
          = concat (map2 (@) gaps pcs) @ g0 @ r @ suf"
      proof -
        have "r = ?p @ ?q" by simp
        then have "r = ?p @ a @ trim ?q @ b" using q by simp
        then have "concat (map2 (@) gaps pcs) @ g0 @ r @ suf
            = concat (map2 (@) gaps pcs) @ g0 @ (?p @ a @ trim ?q @ b) @ suf" by simp
        then show ?thesis using step.prems(2) by (simp add: weave_snoc)
      qed
      ultimately show ?thesis by simp
    qed
  qed
qed

lemma pieces_to_chunks:
  "length gaps = length pcs \<Longrightarrow> \<forall>g\<in>set gaps. blank g \<Longrightarrow> blank pre \<Longrightarrow> blank tail \<Longrightarrow>
   \<exists>gaps' tail'. length gaps' = length pcs \<and> (\<forall>g\<in>set gaps'. blank g) \<and> blank tail'
      \<and> pre @ concat (map2 (@) gaps pcs) @ tail = concat (map2 (@) gaps' (map trim pcs)) @ tail'"
proof (induction gaps pcs arbitrary: pre rule: list_induct2)
  case Nil
  then show ?case by (intro exI [of _ "[]"] exI [of _ "pre @ tail"]) simp
next
  case (Cons g gs p ps)
  obtain a b where p: "p = a @ trim p @ b" and ab: "blank a" "blank b"
    using trim_blank_decomp [of p] by blast
  from Cons.prems have "\<forall>g\<in>set gs. blank g" by simp
  from Cons.IH [OF this ab(2) Cons.prems(3)] obtain gaps' tail' where
    IH: "length gaps' = length ps" "\<forall>g\<in>set gaps'. blank g" "blank tail'"
      "b @ concat (map2 (@) gs ps) @ tail = concat (map2 (@) gaps' (map trim ps)) @ tail'"
    by blast
  have "pre @ concat (map2 (@) (g # gs) (p # ps)) @ tail
      = (pre @ g @ a) @ trim p @ (b @ concat (map2 (@) gs ps) @ tail)"
    using p by (metis append.assoc concat.simps(2) list.simps(9) zip_Cons_Cons case_prod_conv)
  also have "\<dots> = concat (map2 (@) ((pre @ g @ a) # gaps') (map trim (p # ps))) @ tail'"
    using IH(4) by simp
  finally have "pre @ concat (map2 (@) (g # gs) (p # ps)) @ tail
      = concat (map2 (@) ((pre @ g @ a) # gaps') (map trim (p # ps))) @ tail'" .
  moreover have "length ((pre @ g @ a) # gaps') = length (p # ps)" using IH(1) by simp
  moreover have "\<forall>h\<in>set ((pre @ g @ a) # gaps'). blank h"
    using IH(2) ab(1) Cons.prems by simp
  ultimately show ?case using IH(3) by blast
qed

lemma filter_blank: "blank g \<Longrightarrow> filter (\<lambda>c. \<not> isWhiteSpace c) g = []"
  by (simp add: blank_def list_all_iff)

lemma filter_weave:
  "length gaps = length chunks \<Longrightarrow> \<forall>g\<in>set gaps. blank g \<Longrightarrow>
     filter (\<lambda>c. \<not> isWhiteSpace c) (concat (map2 (@) gaps chunks))
       = filter (\<lambda>c. \<not> isWhiteSpace c) (concat chunks)"
  by (induction gaps chunks rule: list_induct2) (simp_all add: filter_blank)

lemma splitContent_pieces:
  assumes "splitContent text m = Some chunks" and "m < length text"
  shows "\<exists>pcs gaps tail. chunks = map trim pcs \<and> length gaps = length pcs
      \<and> (\<forall>g\<in>set gaps. blank g) \<and> blank tail
      \<and> (\<forall>p\<in>set (butlast pcs). m \<le> 2 * length p \<and> length p \<le> m)
      \<and> text = concat (map2 (@) gaps pcs) @ tail"
proof -
  from assms have "splitLoop m [] text = Some chunks" by (simp add: splitContent_def)
  from splitLoop_pieces [OF this, of "[]" "[]" "[]" "[]"] assms(2) show ?thesis by simp
qed

lemma splitContent_chunks:
  assumes "splitContent text m = Some chunks"
  shows "\<exists>gaps tail. length gaps = length chunks \<and> (\<forall>g\<in>set gaps. blank g) \<and> blank tail
      \<and> text = concat (map2 (@) gaps chunks) @ tail"
proof (cases "m < length text")
  case False
  with assms have "chunks = [text]" by (simp add: splitContent_def)
  then show ?thesis by (intro exI [of _ "[[]]"] exI [of _ "[]"]) simp
next
  case True
  from splitContent_pieces [OF assms True] obtain pcs gaps tail where
    p: "chunks = map trim pcs" "length gaps = length pcs" "\<forall>g\<in>set gaps. blank g" "blank tail"
      "text = concat (map2 (@) gaps pcs) @ tail" by blast
  from pieces_to_chunks [OF p(2) p(3) _ p(4), of "[]"] p(1) p(5) show ?thesis by simp
qed

lemma splitContent_returns: "1 \<le> m \<Longrightarrow> \<exists>chunks. splitContent text m = Some chunks"
  by (simp add: splitContent_def splitLoop_returns)

lemma splitContent_bounded:
  assumes "splitContent text m = Some chunks"
  shows "\<forall>c\<in>set chunks. length c \<le> m"
proof (cases "m < length text")
  case False
  with assms show ?thesis by (auto simp: splitContent_def)
next
  case True
  with assms have "splitLoop m [] text = Some chunks" by (simp add: splitContent_def)
  from splitLoop_bounded [OF this] show ?thesis by simp
qed

text \<open>The accumulator only collects: the loop from any accumulator is the loop from the
  empty one, and one iteration of \<open>splitContent\<close> cuts at \<open>chooseSplit\<close>.\<close>

lemma splitLoop_suffix:
  "splitLoop m acc0 r = Some out \<Longrightarrow>
     \<exists>suffix. out = acc0 @ suffix \<and> (\<forall>acc. splitLoop m acc r = Some (acc @ suffix))"
proof (induction m acc0 r out rule: splitLoop_induct)
  case (step f m acc0 r out)
  show ?case
  proof (cases "r = []")
    case True
    with step.hyps show ?thesis by (simp add: splitLoop_Nil)
  next
    case False
    show ?thesis
    proof (cases "length r \<le> m")
      case True
      with False step.hyps show ?thesis by (simp add: splitLoop_fits)
    next
      case long: False
      let ?c = "trim (take (chooseSplit r m) r)"
      let ?rest = "trim (drop (chooseSplit r m) r)"
      from False long step.hyps have "f m (acc0 @ [?c]) ?rest = Some out" by simp
      from step.IH [OF this] obtain suffix where
        s: "out = (acc0 @ [?c]) @ suffix" "\<forall>acc. splitLoop m acc ?rest = Some (acc @ suffix)"
        by blast
      have "\<forall>acc. splitLoop m acc r = Some (acc @ (?c # suffix))"
      proof
        fix acc
        from long have "splitLoop m acc r = splitLoop m (acc @ [?c]) ?rest"
          by (simp add: splitLoop_cut)
        with s(2) show "splitLoop m acc r = Some (acc @ (?c # suffix))" by simp
      qed
      with s(1) show ?thesis by simp
    qed
  qed
qed

lemma splitLoop_acc: "splitLoop m acc r = map_option ((@) acc) (splitLoop m [] r)"
proof (cases "splitLoop m [] r")
  case (Some out)
  from splitLoop_suffix [OF this] show ?thesis using Some by auto
next
  case None
  show ?thesis
  proof (cases "splitLoop m acc r")
    case (Some out)
    from splitLoop_suffix [OF this] None show ?thesis by auto
  next
    case n: None
    with None show ?thesis by simp
  qed
qed

lemma splitContent_step:
  assumes "m < length t"
  shows "splitContent t m =
     (if trim (drop (chooseSplit t m) t) = [] then Some [trim (take (chooseSplit t m) t)]
      else map_option ((#) (trim (take (chooseSplit t m) t)))
             (splitContent (trim (drop (chooseSplit t m) t)) m))"
proof -
  let ?c = "trim (take (chooseSplit t m) t)"
  let ?rest = "trim (drop (chooseSplit t m) t)"
  from assms have "splitContent t m = splitLoop m ([] @ [?c]) ?rest"
    using splitLoop_cut [of m t "[]"] by (simp add: splitContent_def)
  also have "\<dots> = map_option ((@) [?c]) (splitLoop m [] ?rest)"
    by (simp add: splitLoop_acc [of m "[?c]"])
  finally have e: "splitContent t m = map_option ((#) ?c) (splitLoop m [] ?rest)"
    by (simp add: option.map_comp comp_def cong: option.map_cong)
  show ?thesis
  proof (cases "?rest = []")
    case True
    with e show ?thesis by (simp add: splitLoop_Nil)
  next
    case False
    then have "splitLoop m [] ?rest = splitContent ?rest m"
      by (simp add: splitContent_def splitLoop_fits)
    with e False show ?thesis by simp
  qed
qed

lemma lastIndexFrom_numeral:
  "lastIndexFrom s pat (numeral n) =
     (if matchesAt s pat (numeral n) then Some (numeral n) else lastIndexFrom s pat (pred_numeral n))"
  by (simp add: numeral_eq_Suc)

subsection \<open>The order of the split points\<close>

lemma occursFromMidpoint_iff:
  "occursFromMidpoint s pat m \<longleftrightarrow> (\<exists>i\<le>m. m \<le> 2 * i \<and> matchesAt s pat i)"
  by (auto simp add: occursFromMidpoint_def list_ex_iff less_Suc_eq_le simp del: upt_Suc)

lemma lastOccurrence_iff: "lastOccurrence s pat m k \<longleftrightarrow> lastIndexOf s pat m = Some k"
  by (auto simp add: lastOccurrence_def lastIndexOf_Some_iff list_all_iff less_Suc_eq_le
      simp del: upt_Suc)

lemma tooEarly_iff: "tooEarly (lastIndexOf s pat m) m \<longleftrightarrow> \<not> occursFromMidpoint s pat m"
proof (cases "lastIndexOf s pat m")
  case None
  then have "\<forall>j. matchesAt s pat j \<longrightarrow> m < j" by (simp add: lastIndexOf_None_iff)
  then have "\<not> occursFromMidpoint s pat m" by (fastforce simp: occursFromMidpoint_iff)
  with None show ?thesis by (simp add: tooEarly_def)
next
  case (Some k)
  then have k: "matchesAt s pat k" "k \<le> m" "\<forall>j. matchesAt s pat j \<and> j \<le> m \<longrightarrow> j \<le> k"
    by (simp_all add: lastIndexOf_Some_iff)
  show ?thesis
  proof (cases "2 * k < m")
    case True
    have "\<not> occursFromMidpoint s pat m"
    proof
      assume "occursFromMidpoint s pat m"
      then obtain i where "i \<le> m" "m \<le> 2 * i" "matchesAt s pat i"
        by (auto simp: occursFromMidpoint_iff)
      with k(3) have "i \<le> k" by blast
      with \<open>m \<le> 2 * i\<close> True show False by simp
    qed
    with Some True show ?thesis by (simp add: tooEarly_def)
  next
    case False
    with k have "occursFromMidpoint s pat m" by (auto simp: occursFromMidpoint_iff)
    with Some False show ?thesis by (simp add: tooEarly_def)
  qed
qed

lemma not_tooEarly_Some: "\<not> tooEarly v m \<Longrightarrow> \<exists>k. v = Some k \<and> m \<le> 2 * k"
  by (cases v) (simp_all add: tooEarly_def)

lemma chooseSplit_priority:
  "(if occursFromMidpoint r [10, 10] m then lastOccurrence r [10, 10] m (chooseSplit r m)
    else if occursFromMidpoint r [10] m then lastOccurrence r [10] m (chooseSplit r m)
    else if occursFromMidpoint r [32] m then lastOccurrence r [32] m (chooseSplit r m)
    else chooseSplit r m = m)"
proof -
  have 1: "occursFromMidpoint r [10, 10] m \<Longrightarrow> lastIndexOf r [10, 10] m = Some (chooseSplit r m)"
  proof -
    assume "occursFromMidpoint r [10, 10] m"
    then have n: "\<not> tooEarly (lastIndexOf r [10, 10] m) m" by (simp add: tooEarly_iff)
    from not_tooEarly_Some [OF this] obtain k where "lastIndexOf r [10, 10] m = Some k" "m \<le> 2 * k"
      by blast
    with n show ?thesis by (simp add: chooseSplit_def Let_def)
  qed
  have 2: "\<not> occursFromMidpoint r [10, 10] m \<Longrightarrow> occursFromMidpoint r [10] m \<Longrightarrow>
      lastIndexOf r [10] m = Some (chooseSplit r m)"
  proof -
    assume "\<not> occursFromMidpoint r [10, 10] m" "occursFromMidpoint r [10] m"
    then have a: "tooEarly (lastIndexOf r [10, 10] m) m" and n: "\<not> tooEarly (lastIndexOf r [10] m) m"
      by (simp_all add: tooEarly_iff)
    from not_tooEarly_Some [OF n] obtain k where "lastIndexOf r [10] m = Some k" "m \<le> 2 * k"
      by blast
    with a n show ?thesis by (simp add: chooseSplit_def Let_def)
  qed
  have 3: "\<not> occursFromMidpoint r [10, 10] m \<Longrightarrow> \<not> occursFromMidpoint r [10] m \<Longrightarrow>
      occursFromMidpoint r [32] m \<Longrightarrow> lastIndexOf r [32] m = Some (chooseSplit r m)"
  proof -
    assume "\<not> occursFromMidpoint r [10, 10] m" "\<not> occursFromMidpoint r [10] m"
      "occursFromMidpoint r [32] m"
    then have a: "tooEarly (lastIndexOf r [10, 10] m) m" "tooEarly (lastIndexOf r [10] m) m"
      and n: "\<not> tooEarly (lastIndexOf r [32] m) m"
      by (simp_all add: tooEarly_iff)
    from not_tooEarly_Some [OF n] obtain k where "lastIndexOf r [32] m = Some k" "m \<le> 2 * k"
      by blast
    with a n show ?thesis by (simp add: chooseSplit_def Let_def)
  qed
  have 4: "\<not> occursFromMidpoint r [10, 10] m \<Longrightarrow> \<not> occursFromMidpoint r [10] m \<Longrightarrow>
      \<not> occursFromMidpoint r [32] m \<Longrightarrow> chooseSplit r m = m"
  proof -
    assume "\<not> occursFromMidpoint r [10, 10] m" "\<not> occursFromMidpoint r [10] m"
      "\<not> occursFromMidpoint r [32] m"
    then have a: "tooEarly (lastIndexOf r [10, 10] m) m" "tooEarly (lastIndexOf r [10] m) m"
      "tooEarly (lastIndexOf r [32] m) m"
      by (simp_all add: tooEarly_iff)
    then show ?thesis by (auto simp: chooseSplit_def Let_def tooEarly_def split: option.splits)
  qed
  from 1 2 3 4 show ?thesis by (simp add: lastOccurrence_iff)
qed

subsection \<open>Worked examples\<close>

lemma splitContent_example:
  "splitContent (js ''hello world, this is a test'') 10
     = Some (map js [''hello'', ''world,'', ''this is a'', ''test''])"
  by (simp add: splitContent_def js_def splitLoop_cut splitLoop_fits splitLoop_Nil chooseSplit_def
      lastIndexOf_def tooEarly_def matchesAt_def trim_def isWhiteSpace_def lastIndexFrom_numeral)

lemma splitContent_trimmed_example:
  "splitContent (js ''a         bbbbbbbbbbb'') 10 = Some (map js [''a'', ''bbbbbbbbbb'', ''b''])"
  by (simp add: splitContent_def js_def splitLoop_cut splitLoop_fits splitLoop_Nil chooseSplit_def
      lastIndexOf_def tooEarly_def matchesAt_def trim_def isWhiteSpace_def lastIndexFrom_numeral)

text \<open>Examples at the default maximum length of 1900: a text without white space is cut
  hard, and a run of spaces before the cut leaves a chunk of one letter.\<close>

lemma no_match_without_head: "pat \<noteq> [] \<Longrightarrow> hd pat \<notin> set s \<Longrightarrow> \<not> matchesAt s pat j"
proof
  assume p: "pat \<noteq> []" and h: "hd pat \<notin> set s" and m: "matchesAt s pat j"
  from m have "take (length pat) (drop j s) = pat" by (simp add: matchesAt_def)
  then have "set pat \<subseteq> set s" by (metis set_drop_subset set_take_subset subset_trans)
  with p h show False by (cases pat) auto
qed

lemma chooseSplit_hard_cut: "10 \<notin> set r \<Longrightarrow> 32 \<notin> set r \<Longrightarrow> chooseSplit r m = m"
proof -
  assume a: "10 \<notin> set r" "32 \<notin> set r"
  have "lastIndexOf r [10, 10] m = None" "lastIndexOf r [10] m = None" "lastIndexOf r [32] m = None"
    using a by (simp_all add: lastIndexOf_None_iff no_match_without_head)
  then show ?thesis by (simp add: chooseSplit_def tooEarly_def)
qed

lemma trim_solid: "\<forall>x\<in>set s. \<not> isWhiteSpace x \<Longrightarrow> trim s = s"
proof (rule trim_fixed)
  assume a: "\<forall>x\<in>set s. \<not> isWhiteSpace x"
  show "s = [] \<or> \<not> isWhiteSpace (hd s) \<and> \<not> isWhiteSpace (last s)"
  proof (cases "s = []")
    case True
    then show ?thesis by simp
  next
    case False
    then have "hd s \<in> set s" "last s \<in> set s" by simp_all
    with a show ?thesis by blast
  qed
qed

lemma splitLoop_longText:
  "splitLoop 1900 acc longText = Some (acc @ [replicate 1900 98, [98]])"
proof -
  let ?r = "replicate 1901 (98 :: nat)"
  have k: "chooseSplit ?r 1900 = 1900" by (rule chooseSplit_hard_cut) simp_all
  have a: "trim (replicate 1900 98) = replicate 1900 98"
    by (rule trim_solid) (simp add: isWhiteSpace_def)
  have b: "trim [98] = [98]" by (rule trim_solid) (simp add: isWhiteSpace_def)
  have d: "drop 1900 ?r = [98]"
  proof -
    have "drop 1900 ?r = replicate 1 98" by (simp only: drop_replicate) simp
    then show ?thesis by simp
  qed
  have "splitLoop 1900 acc ?r = splitLoop 1900 (acc @ [trim (take 1900 ?r)]) (trim (drop 1900 ?r))"
    using splitLoop_cut [of 1900 ?r acc] k by simp
  also have "\<dots> = splitLoop 1900 (acc @ [replicate 1900 98]) [98]"
    by (simp only: d b) (simp add: a)
  also have "\<dots> = Some (acc @ [replicate 1900 98, [98]])"
    using splitLoop_fits [of "[98]" 1900 "acc @ [replicate 1900 98]"] by simp
  finally show ?thesis by (simp only: longText_def)
qed

lemma trim_padded_right: "\<not> isWhiteSpace x \<Longrightarrow> isWhiteSpace y \<Longrightarrow> trim (x # replicate n y) = [x]"
proof -
  assume x: "\<not> isWhiteSpace x" and y: "isWhiteSpace y"
  have "rev (x # replicate n y) = replicate n y @ [x]" by simp
  moreover have "dropWhile isWhiteSpace (replicate n y @ [x]) = [x]"
    using x y by (induction n) simp_all
  ultimately show ?thesis using x by (simp add: trim_def)
qed

lemma trim_padded_left: "isWhiteSpace y \<Longrightarrow> \<forall>x\<in>set s. \<not> isWhiteSpace x \<Longrightarrow> trim (y # s) = s"
proof -
  assume y: "isWhiteSpace y" and s: "\<forall>x\<in>set s. \<not> isWhiteSpace x"
  have "dropWhile isWhiteSpace (y # s) = s" using y s by (cases s) simp_all
  moreover have "dropWhile isWhiteSpace (rev s) = rev s" using s by (cases "rev s") auto
  ultimately show ?thesis by (simp add: trim_def)
qed

lemma paddedText_cut: "chooseSplit paddedText 1900 = 1899"
proof -
  have n: "10 \<notin> set paddedText" by (simp add: paddedText_def longText_def)
  then have 1: "lastIndexOf paddedText [10, 10] 1900 = None" "lastIndexOf paddedText [10] 1900 = None"
    by (simp_all add: lastIndexOf_None_iff no_match_without_head)
  have l: "length paddedText = 3801" by (simp add: paddedText_def longText_def)
  have at: "\<And>j. matchesAt paddedText [32] j \<longleftrightarrow> j < 3801 \<and> paddedText ! j = 32"
  proof -
    fix j
    show "matchesAt paddedText [32] j \<longleftrightarrow> j < 3801 \<and> paddedText ! j = 32"
    proof (cases "j < 3801")
      case True
      then have "take 1 (drop j paddedText) = [paddedText ! j]"
        using l by (simp add: take_Suc_conv_app_nth)
      with True l show ?thesis by (simp add: matchesAt_def)
    next
      case False
      then show ?thesis using l by (simp add: matchesAt_def)
    qed
  qed
  have p: "paddedText = [97] @ replicate 1899 32 @ replicate 1901 98"
    by (simp add: paddedText_def longText_def)
  have v: "paddedText ! j = 32 \<longleftrightarrow> 1 \<le> j \<and> j \<le> 1899" if "j < 3801" for j :: nat
  proof (cases "j = 0")
    case True
    then show ?thesis by (simp add: p)
  next
    case False
    show ?thesis
    proof (cases "j \<le> 1899")
      case True
      with False have "j - 1 < 1899" by simp
      with False True show ?thesis by (simp add: p nth_append)
    next
      case big: False
      with that have "j - 1 - 1899 < 1901" by simp
      with False big show ?thesis by (simp add: p nth_append)
    qed
  qed
  have "lastIndexOf paddedText [32] 1900 = Some 1899"
    unfolding lastIndexOf_Some_iff at using v by auto
  with 1 show ?thesis by (simp add: chooseSplit_def tooEarly_def)
qed

lemma paddedText_chunks:
  "splitContent paddedText 1900 = Some [[97], replicate 1900 98, [98]]"
proof -
  have l: "1900 < length paddedText" by (simp add: paddedText_def longText_def)
  have t: "take 1899 paddedText = 97 # replicate 1898 32"
    by (simp add: paddedText_def longText_def)
  have d: "drop 1899 paddedText = 32 # longText"
  proof -
    have "drop 1898 (replicate 1899 (32 :: nat)) = replicate 1 32" by (simp only: drop_replicate) simp
    then show ?thesis by (simp add: paddedText_def)
  qed
  have a: "trim (97 # replicate 1898 32) = [97]"
    by (rule trim_padded_right) (simp_all add: isWhiteSpace_def)
  have b: "trim (32 # longText) = longText"
    by (rule trim_padded_left) (simp_all add: isWhiteSpace_def longText_def)
  have "splitContent paddedText 1900 = splitLoop 1900 [] paddedText"
    using l by (simp add: splitContent_def)
  also have "\<dots> = splitLoop 1900 ([] @ [trim (take 1899 paddedText)]) (trim (drop 1899 paddedText))"
    using splitLoop_cut [OF l, of "[]"] by (simp only: paddedText_cut)
  also have "\<dots> = splitLoop 1900 [[97]] longText" by (simp only: t d a b) simp
  also have "\<dots> = Some [[97], replicate 1900 98, [98]]" by (simp add: splitLoop_longText)
  finally show ?thesis .
qed

lemma long_run_chunks:
  "splitContent longText 1900 = Some [replicate 1900 98, [98]]"
  using splitLoop_longText [of "[]"] by (simp add: splitContent_def longText_def)

text \<open>With \<open>maxLength = 0\<close> the loop can run forever: the hard cut at index 0 removes
  nothing from a text that has no white space at its ends.\<close>

lemma splitLoop_zero_stuck:
  "splitLoop m acc r = Some out \<Longrightarrow> m = 0 \<Longrightarrow> r = [97] \<Longrightarrow> False"
proof (induction m acc r out rule: splitLoop_induct)
  case (step f m acc r out)
  have k: "chooseSplit [97] 0 = 0" using chooseSplit_le [of "[97]" 0] by simp
  have t: "trim [97] = [97]" by (simp add: trim_def isWhiteSpace_def)
  from step.hyps step.prems k t
  have "f 0 (acc @ [trim (take 0 [97])]) [97] = Some out" by simp
  from step.IH [OF this] show False by simp
qed

lemma splitContent_zero_diverges: "splitContent [97] 0 = None"
proof (cases "splitContent [97] 0")
  case None
  then show ?thesis .
next
  case (Some out)
  then have "splitLoop 0 [] [97] = Some out" by (simp add: splitContent_def)
  from splitLoop_zero_stuck [OF this] show ?thesis by simp
qed

subsection \<open>The claims about the chunk splitter\<close>

text \<open>
  C3. Every chunk that \<open>splitContent\<close> returns has length at most \<open>maxLength\<close>, for every
  text and every maximum length; and for a maximum length of at least one (the default is
  1900) \<open>splitContent\<close> does return.
\<close>

theorem splitContent_chunks_bounded:
  "(1 \<le> maxLength \<longrightarrow> (\<exists>chunks. splitContent text maxLength = Some chunks))
   \<and> (\<forall>chunks. splitContent text maxLength = Some chunks
          \<longrightarrow> (\<forall>c\<in>set chunks. length c \<le> maxLength))"
  using splitContent_returns [of maxLength "text"] splitContent_bounded [of "text" maxLength]
  by blast

theorem splitContent_chunks_bounded_witness:
  "splitContent (js ''hello world, this is a test'') 10
     = Some (map js [''hello'', ''world,'', ''this is a'', ''test''])
   \<and> list_all (\<lambda>c. length c \<le> 10) (map js [''hello'', ''world,'', ''this is a'', ''test''])"
  using splitContent_chunks_bounded [of 10 "js ''hello world, this is a test''"]
    splitContent_example
  by (simp add: list_all_iff)

text \<open>
  C4. The text is the concatenation of the chunks with a string of white space before each
  chunk and one after the last: the chunks are consecutive parts of the text, and what lies
  between them is white space. So the chunks and the text have the same characters other than
  white space, in the same order. For a maximum length of at least one \<open>splitContent\<close>
  does return.
\<close>

theorem splitContent_reassembles:
  "(1 \<le> maxLength \<longrightarrow> (\<exists>chunks. splitContent text maxLength = Some chunks))
   \<and> (\<forall>chunks. splitContent text maxLength = Some chunks \<longrightarrow>
          (\<exists>gaps tail. length gaps = length chunks \<and> (\<forall>g\<in>set gaps. blank g) \<and> blank tail
              \<and> text = concat (map2 (@) gaps chunks) @ tail)
          \<and> filter (\<lambda>c. \<not> isWhiteSpace c) (concat chunks) = filter (\<lambda>c. \<not> isWhiteSpace c) text)"
proof (intro conjI allI impI)
  assume "1 \<le> maxLength"
  then show "\<exists>chunks. splitContent text maxLength = Some chunks" by (rule splitContent_returns)
next
  fix chunks assume a: "splitContent text maxLength = Some chunks"
  from splitContent_chunks [OF a]
  show "\<exists>gaps tail. length gaps = length chunks \<and> (\<forall>g\<in>set gaps. blank g) \<and> blank tail
      \<and> text = concat (map2 (@) gaps chunks) @ tail" .
next
  fix chunks assume a: "splitContent text maxLength = Some chunks"
  from splitContent_chunks [OF a] obtain gaps tail where
    g: "length gaps = length chunks" "\<forall>g\<in>set gaps. blank g" "blank tail"
      "text = concat (map2 (@) gaps chunks) @ tail" by blast
  have "filter (\<lambda>c. \<not> isWhiteSpace c) text
      = filter (\<lambda>c. \<not> isWhiteSpace c) (concat (map2 (@) gaps chunks))"
    using g(3,4) by (simp add: filter_blank)
  also have "\<dots> = filter (\<lambda>c. \<not> isWhiteSpace c) (concat chunks)"
    using g(1,2) by (rule filter_weave)
  finally show "filter (\<lambda>c. \<not> isWhiteSpace c) (concat chunks) = filter (\<lambda>c. \<not> isWhiteSpace c) text"
    by simp
qed

theorem splitContent_reassembles_witness:
  "splitContent (js ''hello world, this is a test'') 10
     = Some (map js [''hello'', ''world,'', ''this is a'', ''test''])
   \<and> filter (\<lambda>c. \<not> isWhiteSpace c) (concat (map js [''hello'', ''world,'', ''this is a'', ''test'']))
       = filter (\<lambda>c. \<not> isWhiteSpace c) (js ''hello world, this is a test'')"
  using splitContent_reassembles [of 10 "js ''hello world, this is a test''"]
    splitContent_example
  by blast

text \<open>
  C5 as stated fails: the guard is on the split index, and the chunk is trimmed after the cut.
  At the default maximum of 1900, a letter followed by 1899 spaces and 1901 letters is cut at
  the last space, index 1899, and the first chunk is the single letter. At a maximum of 10 the
  same happens with a run of nine spaces.
\<close>

theorem splitContent_short_chunk_counterexample:
  "splitContent paddedText 1900 = Some [[97], replicate 1900 98, [98]]
   \<and> 1900 < length paddedText
   \<and> 2 * length [97 :: nat] < 1900
   \<and> splitContent (js ''a         bbbbbbbbbbb'') 10 = Some (map js [''a'', ''bbbbbbbbbb'', ''b''])
   \<and> 10 < length (js ''a         bbbbbbbbbbb'')
   \<and> 2 * length (js ''a'') < 10"
  using paddedText_chunks splitContent_trimmed_example
  by (simp add: js_def paddedText_def longText_def)

text \<open>
  C5, amended. The split index of an iteration lies between half the maximum length and the
  maximum length, and is chosen in the order paragraph break, line break, space, hard cut:
  the last paragraph break up to \<open>maxLength\<close> when one occurs from the midpoint on, else the
  last line break likewise, else the last space likewise, else \<open>maxLength\<close>. A text that fits
  is one chunk; a text longer than \<open>maxLength\<close> is cut by \<open>splitContent\<close> at that index:
  its first chunk is the part before the index, trimmed, and the other chunks are those of
  the part from the index on, trimmed (none when nothing is left). So the text is cut into consecutive pieces, with only
  white space between them, every piece but the last of a length between half the maximum and
  the maximum; each chunk is its piece trimmed, and may be shorter than half the maximum.
\<close>

theorem splitContent_midpoint_guard:
  "maxLength \<le> 2 * chooseSplit remaining maxLength
   \<and> chooseSplit remaining maxLength \<le> maxLength
   \<and> (if occursFromMidpoint remaining [10, 10] maxLength
         then lastOccurrence remaining [10, 10] maxLength (chooseSplit remaining maxLength)
       else if occursFromMidpoint remaining [10] maxLength
         then lastOccurrence remaining [10] maxLength (chooseSplit remaining maxLength)
       else if occursFromMidpoint remaining [32] maxLength
         then lastOccurrence remaining [32] maxLength (chooseSplit remaining maxLength)
       else chooseSplit remaining maxLength = maxLength)
   \<and> (length text \<le> maxLength \<longrightarrow> splitContent text maxLength = Some [text])
   \<and> (maxLength < length text \<longrightarrow>
        splitContent text maxLength =
          (if trim (drop (chooseSplit text maxLength) text) = []
           then Some [trim (take (chooseSplit text maxLength) text)]
           else map_option (Cons (trim (take (chooseSplit text maxLength) text)))
                  (splitContent (trim (drop (chooseSplit text maxLength) text)) maxLength)))
   \<and> (splitContent text maxLength = Some chunks \<and> maxLength < length text \<longrightarrow>
        (\<exists>pieces gaps tail. chunks = map trim pieces \<and> length gaps = length pieces
           \<and> (\<forall>g\<in>set gaps. blank g) \<and> blank tail
           \<and> text = concat (map2 (@) gaps pieces) @ tail
           \<and> (\<forall>p\<in>set (butlast pieces). maxLength \<le> 2 * length p \<and> length p \<le> maxLength)))"
proof (intro conjI impI)
  show "maxLength \<le> 2 * chooseSplit remaining maxLength" by (rule chooseSplit_ge)
  show "chooseSplit remaining maxLength \<le> maxLength" by (rule chooseSplit_le)
  show "if occursFromMidpoint remaining [10, 10] maxLength
         then lastOccurrence remaining [10, 10] maxLength (chooseSplit remaining maxLength)
       else if occursFromMidpoint remaining [10] maxLength
         then lastOccurrence remaining [10] maxLength (chooseSplit remaining maxLength)
       else if occursFromMidpoint remaining [32] maxLength
         then lastOccurrence remaining [32] maxLength (chooseSplit remaining maxLength)
       else chooseSplit remaining maxLength = maxLength"
    by (rule chooseSplit_priority)
next
  assume "length text \<le> maxLength"
  then show "splitContent text maxLength = Some [text]" by (simp add: splitContent_def)
next
  assume "maxLength < length text"
  then show "splitContent text maxLength =
      (if trim (drop (chooseSplit text maxLength) text) = []
       then Some [trim (take (chooseSplit text maxLength) text)]
       else map_option (Cons (trim (take (chooseSplit text maxLength) text)))
              (splitContent (trim (drop (chooseSplit text maxLength) text)) maxLength))"
    by (rule splitContent_step)
next
  assume "splitContent text maxLength = Some chunks \<and> maxLength < length text"
  then have a: "splitContent text maxLength = Some chunks" and b: "maxLength < length text"
    by simp_all
  from splitContent_pieces [OF a b]
  show "\<exists>pieces gaps tail. chunks = map trim pieces \<and> length gaps = length pieces
      \<and> (\<forall>g\<in>set gaps. blank g) \<and> blank tail
      \<and> text = concat (map2 (@) gaps pieces) @ tail
      \<and> (\<forall>p\<in>set (butlast pieces). maxLength \<le> 2 * length p \<and> length p \<le> maxLength)"
    by blast
qed

theorem splitContent_midpoint_guard_witness:
  "10 < length paragraphText
   \<and> occursFromMidpoint paragraphText [10, 10] 10
   \<and> lastOccurrence paragraphText [10, 10] 10 6
   \<and> splitContent paragraphText 10 = Some [js ''aaaaaa'', js ''b'' @ [10] @ js ''cc dd'']
   \<and> 10 < length lineText
   \<and> \<not> occursFromMidpoint lineText [10, 10] 10
   \<and> occursFromMidpoint lineText [10] 10
   \<and> lastOccurrence lineText [10] 10 6
   \<and> splitContent lineText 10 = Some [js ''aaaaaa'', js ''bb cc dd'']
   \<and> length (js ''bb cc dd'') \<le> 10
   \<and> splitContent (js ''bb cc dd'') 10 = Some [js ''bb cc dd'']
   \<and> (\<exists>pieces gaps tail. [js ''aaaaaa'', js ''b'' @ [10] @ js ''cc dd''] = map trim pieces
         \<and> length gaps = length pieces \<and> list_all blank gaps \<and> blank tail
         \<and> paragraphText = concat (map2 (@) gaps pieces) @ tail
         \<and> list_all (\<lambda>p. 10 \<le> 2 * length p \<and> length p \<le> 10) (butlast pieces))"
proof -
  let ?cs = "[js ''aaaaaa'', js ''b'' @ [10] @ js ''cc dd'']"
  note P = splitContent_midpoint_guard [of 10 paragraphText paragraphText ?cs]
  note L = splitContent_midpoint_guard [of 10 lineText lineText "[]"]
  have lp: "10 < length paragraphText" by (simp add: paragraphText_def js_def)
  have ll: "10 < length lineText" by (simp add: lineText_def js_def)
  have op: "occursFromMidpoint paragraphText [10, 10] 10"
    by (simp add: occursFromMidpoint_def matchesAt_def paragraphText_def js_def upt_rec)
  have ol: "\<not> occursFromMidpoint lineText [10, 10] 10" "occursFromMidpoint lineText [10] 10"
    by (simp_all add: occursFromMidpoint_def matchesAt_def lineText_def js_def upt_rec)
  have kp: "chooseSplit paragraphText 10 = 6"
    by (simp add: chooseSplit_def lastIndexOf_def tooEarly_def matchesAt_def
        lastIndexFrom_numeral paragraphText_def js_def)
  have kl: "chooseSplit lineText 10 = 6"
    by (simp add: chooseSplit_def lastIndexOf_def tooEarly_def matchesAt_def
        lastIndexFrom_numeral lineText_def js_def)
  from P op kp have 1: "lastOccurrence paragraphText [10, 10] 10 6" by simp
  from L ol kl have 2: "lastOccurrence lineText [10] 10 6" by simp
  from P lp have "splitContent paragraphText 10 =
      (if trim (drop (chooseSplit paragraphText 10) paragraphText) = []
       then Some [trim (take (chooseSplit paragraphText 10) paragraphText)]
       else map_option (Cons (trim (take (chooseSplit paragraphText 10) paragraphText)))
              (splitContent (trim (drop (chooseSplit paragraphText 10) paragraphText)) 10))"
    by blast
  then have 3: "splitContent paragraphText 10 = Some ?cs"
    unfolding kp by (simp add: paragraphText_def js_def trim_def isWhiteSpace_def splitContent_def)
  from L ll have "splitContent lineText 10 =
      (if trim (drop (chooseSplit lineText 10) lineText) = []
       then Some [trim (take (chooseSplit lineText 10) lineText)]
       else map_option (Cons (trim (take (chooseSplit lineText 10) lineText)))
              (splitContent (trim (drop (chooseSplit lineText 10) lineText)) 10))"
    by blast
  then have 4: "splitContent lineText 10 = Some [js ''aaaaaa'', js ''bb cc dd'']"
    unfolding kl by (simp add: lineText_def js_def trim_def isWhiteSpace_def splitContent_def)
  have lr: "length (js ''bb cc dd'') \<le> 10" by (simp add: js_def)
  with splitContent_midpoint_guard [of 10 "[]" "js ''bb cc dd''" "[]"]
  have 6: "splitContent (js ''bb cc dd'') 10 = Some [js ''bb cc dd'']" by blast
  from P 3 lp have "\<exists>pieces gaps tail. ?cs = map trim pieces \<and> length gaps = length pieces
         \<and> (\<forall>g\<in>set gaps. blank g) \<and> blank tail
         \<and> paragraphText = concat (map2 (@) gaps pieces) @ tail
         \<and> (\<forall>p\<in>set (butlast pieces). 10 \<le> 2 * length p \<and> length p \<le> 10)"
    by blast
  then have 5: "\<exists>pieces gaps tail. ?cs = map trim pieces
         \<and> length gaps = length pieces \<and> list_all blank gaps \<and> blank tail
         \<and> paragraphText = concat (map2 (@) gaps pieces) @ tail
         \<and> list_all (\<lambda>p. 10 \<le> 2 * length p \<and> length p \<le> 10) (butlast pieces)"
    unfolding list_all_iff .
  from lp op 1 3 ll ol 2 4 lr 6 5 show ?thesis by blast
qed

section \<open>Properties of batch generation\<close>

lemma generateBatchSynopses_trace:
  "fst (generateBatchSynopses w tr titles) = tr @ map Generate titles"
  by (induction titles arbitrary: tr) (simp_all add: case_prod_unfold)

lemma generateBatchSynopses_results:
  "snd (generateBatchSynopses w tr titles)
     = map (\<lambda>(i, t). synopsisResult t (synopsis w (length tr + i))) (enumerate 0 titles)"
proof (induction titles arbitrary: tr)
  case Nil
  then show ?case by simp
next
  case (Cons t ts)
  have "snd (generateBatchSynopses w (tr @ [Generate t]) ts)
      = map (\<lambda>(i, t). synopsisResult t (synopsis w (length tr + i))) (enumerate 1 ts)"
    by (simp add: Cons.IH enumerate_Suc_eq [of 0] map_prod_def case_prod_unfold comp_def
        del: enumerate_Suc_eq)
  then show ?case by (simp add: case_prod_unfold)
qed

lemma title_synopsisResult [simp]: "title (synopsisResult t outcome) = t"
  by (simp add: synopsisResult_def split: sum.splits)

text \<open>
  C1. The batch returns one result per title, in the order of the titles, whatever the
  outcomes of the requests are: the result at index \<open>i\<close> carries the title at index
  \<open>i\<close>; when its request failed, its content is the heading followed by the cross mark,
  \<open>Error:\<close> and the message, and its error flag is set; otherwise the content is the
  heading followed by the synopsis. The requests are issued in the order of the titles.
\<close>

theorem generateBatchSynopses_keeps_order:
  "generateBatchSynopses w tr titles = (tr', results) \<Longrightarrow>
     length results = length titles
     \<and> map title results = titles
     \<and> tr' = tr @ map Generate titles
     \<and> (\<forall>i<length titles.
          (case synopsis w (length tr + i) of
             Inl e \<Rightarrow> error (results ! i)
               \<and> content (results ! i)
                   = js ''## '' @ titles ! i @ [10, 10] @ [10060] @ js '' Error: '' @ errorMessage e
           | Inr s \<Rightarrow> \<not> error (results ! i)
               \<and> content (results ! i) = js ''## '' @ titles ! i @ [10, 10] @ s))"
proof -
  assume a: "generateBatchSynopses w tr titles = (tr', results)"
  have r: "results = map (\<lambda>(i, t). synopsisResult t (synopsis w (length tr + i))) (enumerate 0 titles)"
    using generateBatchSynopses_results [of w tr titles] a by simp
  have t: "tr' = tr @ map Generate titles"
    using generateBatchSynopses_trace [of w tr titles] a by simp
  have l: "length results = length titles" by (simp add: r)
  have m: "map title results = titles"
    by (simp add: r comp_def case_prod_unfold map_snd_enumerate)
  have n: "\<And>i. i < length titles \<Longrightarrow>
      results ! i = synopsisResult (titles ! i) (synopsis w (length tr + i))"
    by (simp add: r nth_enumerate_eq)
  from l m t n show ?thesis
    by (auto simp: synopsisResult_def split: sum.splits)
qed

theorem generateBatchSynopses_keeps_order_witness:
  "generateBatchSynopses flakyWorld [] (map js [''Dune'', ''1984''])
     = ([Generate (js ''Dune''), Generate (js ''1984'')],
        [\<lparr>title = js ''Dune'', content = js ''## Dune'' @ [10, 10] @ js ''A synopsis.'', error = False\<rparr>,
         \<lparr>title = js ''1984'',
          content = js ''## 1984'' @ [10, 10] @ [10060] @ js '' Error: boom'', error = True\<rparr>])
   \<and> length [\<lparr>title = js ''Dune'', content = js ''## Dune'' @ [10, 10] @ js ''A synopsis.'', error = False\<rparr>,
         \<lparr>title = js ''1984'',
          content = js ''## 1984'' @ [10, 10] @ [10060] @ js '' Error: boom'', error = True\<rparr>]
       = length (map js [''Dune'', ''1984''])"
proof -
  have e: "generateBatchSynopses flakyWorld [] (map js [''Dune'', ''1984''])
     = ([Generate (js ''Dune''), Generate (js ''1984'')],
        [\<lparr>title = js ''Dune'', content = js ''## Dune'' @ [10, 10] @ js ''A synopsis.'', error = False\<rparr>,
         \<lparr>title = js ''1984'',
          content = js ''## 1984'' @ [10, 10] @ [10060] @ js '' Error: boom'', error = True\<rparr>])"
    by (simp add: flakyWorld_def calmWorld_def synopsisResult_def js_def errorMessage_def)
  from generateBatchSynopses_keeps_order [OF e] e show ?thesis by blast
qed

section \<open>Properties of the title resolver\<close>

lemmas validation_eval = isValidSimpleParse_def titleLooksValid_def hasWord_def fillerWords_def
  wordBoundary_def ciMatchAt_def canon_def isWordChar_def endsEllipsisLike_def upt_rec

lemma hasWordI:
  "i \<le> length s \<Longrightarrow> wordBoundary s i \<Longrightarrow> ciMatchAt s w i \<Longrightarrow> wordBoundary s (i + length w)
     \<Longrightarrow> hasWord s w"
  by (auto simp add: hasWord_def list_ex_iff less_Suc_eq_le simp del: upt_Suc)

lemma trim_blank: "blank s \<Longrightarrow> trim s = []"
proof -
  assume "blank s"
  then have "\<forall>x\<in>set s. isWhiteSpace x" by (simp add: blank_def list_all_iff)
  then have d: "dropWhile isWhiteSpace s = []" by (simp only: dropWhile_eq_Nil_conv)
  show ?thesis unfolding trim_def d by simp
qed

lemma three_titles_parse:
  "simpleParseTitle (js ''Dune, 1984, Foundation'') = map js [''Dune'', ''1984'', ''Foundation'']"
  by (simp add: simpleParseTitle_def js_def trim_def isWhiteSpace_def)

lemma three_titles_valid: "isValidSimpleParse (map js [''Dune'', ''1984'', ''Foundation''])"
  by (simp add: validation_eval js_def)

lemma chat_parse:
  "simpleParseTitle (js ''we talked about maybe reading Dune or 1984'')
     = [js ''we talked about maybe reading Dune or 1984'']"
  by (simp add: simpleParseTitle_def js_def trim_def isWhiteSpace_def)

lemma chat_has_or: "hasWord (js ''we talked about maybe reading Dune or 1984'') (js ''or'')"
  by (rule hasWordI [where i = 35])
    (simp_all add: js_def wordBoundary_def ciMatchAt_def canon_def isWordChar_def)

lemma chat_has_we: "hasWord (js ''we talked about maybe reading Dune or 1984'') (js ''we'')"
  by (rule hasWordI [where i = 0])
    (simp_all add: js_def wordBoundary_def ciMatchAt_def canon_def isWordChar_def)

lemma chat_rejected:
  "\<not> isValidSimpleParse (simpleParseTitle (js ''we talked about maybe reading Dune or 1984''))"
  using chat_has_or by (simp add: chat_parse isValidSimpleParse_def titleLooksValid_def)

lemma empty_title_valid: "isValidSimpleParse [[]]"
  by (simp add: validation_eval js_def)

lemma parseTitles_simple:
  "isValidSimpleParse (simpleParseTitle input) \<Longrightarrow>
     parseTitles w tr input = (tr, Inr (simpleParseTitle input))"
  by (simp add: parseTitles_def)

lemma parseTitles_fallback:
  "\<not> isValidSimpleParse (simpleParseTitle input) \<Longrightarrow>
     parseTitles w tr input =
       (if currentProvider w \<in> set (availableProviders w) then extractTitles w tr input
        else (tr, Inl (providerMissing w)))"
  by (simp add: parseTitles_def)

lemma fst_extractTitles: "fst (extractTitles w tr input) = tr @ [Extract input]"
  by (simp add: extractTitles_def claudeExtractTitles_def geminiExtractTitles_def Let_def
      split: sum.splits option.splits)

lemma parseTitles_trace:
  "parseTitles w tr input = (tr', r) \<Longrightarrow> tr' = tr \<or> tr' = tr @ [Extract input]"
  using fst_extractTitles [of w tr input]
  by (auto simp: parseTitles_def Let_def split: if_splits)

subsection \<open>The bracketed span and the split\<close>

lemma hasBracketedSpan_iff:
  "hasBracketedSpan t \<longleftrightarrow> (\<exists>i j. i < j \<and> j < length t \<and> t ! i = 91 \<and> t ! j = 93)"
proof
  assume "hasBracketedSpan t"
  then obtain i j where "i < length t" "t ! i = 91" "Suc i \<le> j" "j < length t" "t ! j = 93"
    by (auto simp: hasBracketedSpan_def list_ex_iff)
  then have "i < j \<and> j < length t \<and> t ! i = 91 \<and> t ! j = 93" by simp
  then show "\<exists>i j. i < j \<and> j < length t \<and> t ! i = 91 \<and> t ! j = 93" by blast
next
  assume "\<exists>i j. i < j \<and> j < length t \<and> t ! i = 91 \<and> t ! j = 93"
  then obtain i j where ij: "i < j" "j < length t" "t ! i = 91" "t ! j = 93" by blast
  then have "i \<in> set [0..<length t]" "j \<in> set [Suc i..<length t]" by simp_all
  with ij(3,4) show "hasBracketedSpan t"
    unfolding hasBracketedSpan_def list_ex_iff by blast
qed

lemma firstJsonArray_None_iff: "firstJsonArray t = None \<longleftrightarrow> \<not> hasBracketedSpan t"
proof (cases "dropWhile (\<lambda>c. c \<noteq> 91) t")
  case Nil
  then have "\<forall>x\<in>set t. x \<noteq> 91" by (simp only: dropWhile_eq_Nil_conv)
  then have "\<not> hasBracketedSpan t" by (auto simp: hasBracketedSpan_iff)
  moreover have "firstJsonArray t = None" unfolding firstJsonArray_def Nil by simp
  ultimately show ?thesis by simp
next
  case (Cons b after)
  define p where "p = takeWhile (\<lambda>c. c \<noteq> 91) t"
  have "t = p @ dropWhile (\<lambda>c. c \<noteq> 91) t" by (simp add: p_def)
  then have t: "t = p @ b # after" by (simp only: Cons)
  have b: "b = 91" using hd_dropWhile [of "\<lambda>c. c \<noteq> 91" t] Cons by simp
  have p: "\<forall>x\<in>set p. x \<noteq> 91" unfolding p_def by (auto dest: set_takeWhileD)
  have len: "length t = length p + Suc (length after)" by (subst t) simp
  have at_p: "\<And>i. i < length p \<Longrightarrow> t ! i = p ! i" by (subst t) (simp add: nth_append)
  have at_b: "t ! length p = 91" by (subst t) (simp add: b)
  have at_after: "\<And>k. t ! (length p + Suc k) = after ! k" by (subst t) (simp add: nth_append)
  have n: "firstJsonArray t = None \<longleftrightarrow> 93 \<notin> set after"
  proof -
    note first = Cons
    have "firstJsonArray t = None \<longleftrightarrow> dropWhile (\<lambda>c. c \<noteq> 93) (rev after) = []"
    proof (cases "dropWhile (\<lambda>c. c \<noteq> 93) (rev after)")
      case Nil
      have "firstJsonArray t = None" by (simp only: firstJsonArray_def first Nil list.case)
      with Nil show ?thesis by (simp only: refl)
    next
      case (Cons a l)
      have "firstJsonArray t = Some (b # rev (a # l))"
        by (simp only: firstJsonArray_def first Cons list.case)
      with Cons show ?thesis by (simp only: option.distinct list.distinct)
    qed
    also have "\<dots> \<longleftrightarrow> (\<forall>x\<in>set (rev after). x \<noteq> 93)" by (simp only: dropWhile_eq_Nil_conv)
    finally show ?thesis by auto
  qed
  have "hasBracketedSpan t \<longleftrightarrow> 93 \<in> set after"
  proof
    assume "hasBracketedSpan t"
    then obtain i j where ij: "i < j" "j < length t" "t ! i = 91" "t ! j = 93"
      by (auto simp: hasBracketedSpan_iff)
    have "\<not> i < length p"
    proof
      assume l: "i < length p"
      then have "p ! i \<in> set p" by simp
      with p at_p [OF l] ij(3) show False by simp
    qed
    with ij(1) have "length p < j" by simp
    then obtain k where k: "j = length p + Suc k" using less_imp_Suc_add by auto
    with ij(2) len have "k < length after" by simp
    then have "after ! k \<in> set after" by simp
    with at_after [of k] k ij(4) show "93 \<in> set after" by simp
  next
    assume "93 \<in> set after"
    then obtain k where k: "k < length after" "after ! k = 93" by (auto simp: in_set_conv_nth)
    have "length p < length p + Suc k" by simp
    moreover have "length p + Suc k < length t" using k(1) len by simp
    moreover have "t ! (length p + Suc k) = 93" using at_after [of k] k(2) by simp
    ultimately show "hasBracketedSpan t" using at_b unfolding hasBracketedSpan_iff by blast
  qed
  with n show ?thesis by simp
qed

lemma no_span_None: "\<not> hasBracketedSpan t \<Longrightarrow> firstJsonArray t = None"
  by (simp add: firstJsonArray_None_iff)

lemma splitOn_nonempty: "splitOn sep s \<noteq> []"
  by (induction s) (auto split: list.splits)

lemma join_Cons_Cons: "join sep ((c # p) # ps) = c # join sep (p # ps)"
  by (cases ps) simp_all

lemma join_splitOn: "join [sep] (splitOn sep s) = s"
proof (induction s)
  case Nil
  then show ?case by simp
next
  case (Cons c cs)
  obtain p ps where ps: "splitOn sep cs = p # ps"
    using splitOn_nonempty [of sep cs] by (cases "splitOn sep cs") auto
  with Cons.IH show ?case by (simp add: join_Cons_Cons)
qed

lemma splitOn_no_sep: "p \<in> set (splitOn sep s) \<Longrightarrow> sep \<notin> set p"
proof (induction s arbitrary: p)
  case Nil
  then show ?case by simp
next
  case (Cons c cs)
  obtain q qs where qs: "splitOn sep cs = q # qs"
    using splitOn_nonempty [of sep cs] by (cases "splitOn sep cs") auto
  with Cons show ?case by (cases "c = sep") auto
qed

subsection \<open>The resolver\<close>

lemma alternatives_parse: "simpleParseTitle (js ''Dune or 1984'') = [js ''Dune or 1984'']"
  by (simp add: simpleParseTitle_def js_def trim_def isWhiteSpace_def)

lemma alternatives_rejected: "\<not> isValidSimpleParse (simpleParseTitle (js ''Dune or 1984''))"
proof -
  have "hasWord (js ''Dune or 1984'') (js ''or'')"
    by (rule hasWordI [where i = 5])
      (simp_all add: js_def wordBoundary_def ciMatchAt_def canon_def isWordChar_def)
  then show ?thesis by (simp add: alternatives_parse isValidSimpleParse_def titleLooksValid_def)
qed

lemma elevenJson_found: "firstJsonArray elevenJson = Some elevenJson"
  by (simp add: firstJsonArray_def elevenJson_def elevenTitles_def js_def)

lemma extractTitles_calm:
  "extractTitles calmWorld tr input = (tr @ [Extract input], Inr elevenTitles)"
  by (simp add: extractTitles_def claudeExtractTitles_def calmWorld_def elevenJson_found
      exampleJsonParse_def js_def)

lemma extractTitles_bad_json:
  "completion w (length tr) = Inr (Some t) \<Longrightarrow> firstJsonArray t = Some j \<Longrightarrow> jsonParse w j = Inl e
     \<Longrightarrow> extractTitles w tr input = (tr @ [Extract input], Inl (apiError (providerLabel w) e))"
  by (simp add: extractTitles_def claudeExtractTitles_def geminiExtractTitles_def providerLabel_def)

text \<open>
  C6 as stated fails when the split leaves no piece: every piece of \<open>","\<close> passes the
  checks, there being none, and yet the provider is asked.
\<close>

theorem comma_only_counterexample:
  "44 \<in> set (js '','')
   \<and> list_all titleLooksValid (simpleParseTitle (js '',''))
   \<and> parseTitles calmWorld [] (js '','') = ([Extract (js '','')], Inr elevenTitles)"
proof -
  have p: "simpleParseTitle (js '','') = []"
    by (simp add: simpleParseTitle_def js_def trim_def)
  then have "\<not> isValidSimpleParse (simpleParseTitle (js '',''))"
    by (simp add: isValidSimpleParse_def)
  then have "parseTitles calmWorld [] (js '','') = extractTitles calmWorld [] (js '','')"
    by (simp add: parseTitles_fallback calmWorld_def)
  with p show ?thesis by (simp add: extractTitles_calm) (simp add: js_def)
qed

text \<open>
  C6, amended. For an input with a comma the simple parse splits on commas (the pieces have
  no comma, and joined with commas they give the input back), trims each piece and drops the
  empty pieces. When at least one piece is left and every piece passes the four
  checks, the pieces are returned in order and the trace is unchanged: no provider call.
  \<open>"Dune, 1984, Foundation"\<close> resolves to the three titles; the chat sentence is rejected
  by the simple parse and goes to the extraction fallback.
\<close>

theorem comma_list_simple_parse:
  "(44 \<in> set input \<longrightarrow>
      simpleParseTitle input = filter (\<lambda>t. 0 < length t) (map trim (splitOn 44 input))
      \<and> join [44] (splitOn 44 input) = input
      \<and> (\<forall>p\<in>set (splitOn 44 input). 44 \<notin> set p)
      \<and> (simpleParseTitle input \<noteq> [] \<and> list_all titleLooksValid (simpleParseTitle input)
            \<longrightarrow> parseTitles w tr input = (tr, Inr (simpleParseTitle input))))
   \<and> parseTitles w tr (js ''Dune, 1984, Foundation'')
       = (tr, Inr (map js [''Dune'', ''1984'', ''Foundation'']))
   \<and> \<not> isValidSimpleParse (simpleParseTitle (js ''we talked about maybe reading Dune or 1984''))
   \<and> parseTitles w tr (js ''we talked about maybe reading Dune or 1984'')
       = (if currentProvider w \<in> set (availableProviders w)
          then extractTitles w tr (js ''we talked about maybe reading Dune or 1984'')
          else (tr, Inl (providerMissing w)))"
proof (intro conjI impI)
  assume "44 \<in> set input"
  then show "simpleParseTitle input = filter (\<lambda>t. 0 < length t) (map trim (splitOn 44 input))"
    by (simp add: simpleParseTitle_def)
next
  show "join [44] (splitOn 44 input) = input" by (rule join_splitOn)
next
  show "\<forall>p\<in>set (splitOn 44 input). 44 \<notin> set p" by (blast dest: splitOn_no_sep)
next
  assume "simpleParseTitle input \<noteq> [] \<and> list_all titleLooksValid (simpleParseTitle input)"
  then have "isValidSimpleParse (simpleParseTitle input)" by (simp add: isValidSimpleParse_def)
  then show "parseTitles w tr input = (tr, Inr (simpleParseTitle input))"
    by (rule parseTitles_simple)
next
  show "parseTitles w tr (js ''Dune, 1984, Foundation'')
       = (tr, Inr (map js [''Dune'', ''1984'', ''Foundation'']))"
    using parseTitles_simple [of "js ''Dune, 1984, Foundation''" w tr] three_titles_valid
    by (simp add: three_titles_parse)
next
  show "\<not> isValidSimpleParse (simpleParseTitle (js ''we talked about maybe reading Dune or 1984''))"
    by (rule chat_rejected)
next
  show "parseTitles w tr (js ''we talked about maybe reading Dune or 1984'')
       = (if currentProvider w \<in> set (availableProviders w)
          then extractTitles w tr (js ''we talked about maybe reading Dune or 1984'')
          else (tr, Inl (providerMissing w)))"
    using chat_rejected by (rule parseTitles_fallback)
qed

theorem comma_list_simple_parse_witness:
  "44 \<in> set (js ''Dune, 1984, Foundation'')
   \<and> simpleParseTitle (js ''Dune, 1984, Foundation'') \<noteq> []
   \<and> list_all titleLooksValid (simpleParseTitle (js ''Dune, 1984, Foundation''))
   \<and> parseTitles calmWorld [] (js ''Dune, 1984, Foundation'')
       = ([], Inr (simpleParseTitle (js ''Dune, 1984, Foundation'')))"
proof -
  have c: "44 \<in> set (js ''Dune, 1984, Foundation'')" by (simp add: js_def)
  have n: "simpleParseTitle (js ''Dune, 1984, Foundation'') \<noteq> []"
    by (simp add: three_titles_parse)
  have v: "list_all titleLooksValid (simpleParseTitle (js ''Dune, 1984, Foundation''))"
    using three_titles_valid by (simp add: three_titles_parse isValidSimpleParse_def)
  from comma_list_simple_parse [of "js ''Dune, 1984, Foundation''" calmWorld "[]"] c n v
  show ?thesis by blast
qed

text \<open>
  C10. An input with neither a comma nor a line feed gives the one-element list of its
  trimmed form. When the input is empty or white space only, that element is the empty
  string, the list passes the validation, and \<open>parseTitles\<close> returns it with the trace
  unchanged: the extraction fallback is not called.
\<close>

theorem no_separator_single_title:
  "44 \<notin> set input \<and> 10 \<notin> set input \<longrightarrow>
     simpleParseTitle input = [trim input]
     \<and> (blank input \<longrightarrow>
           simpleParseTitle input = [[]]
           \<and> isValidSimpleParse (simpleParseTitle input)
           \<and> parseTitles w tr input = (tr, Inr [[]]))"
proof (intro impI conjI)
  assume a: "44 \<notin> set input \<and> 10 \<notin> set input"
  then show s: "simpleParseTitle input = [trim input]" by (simp add: simpleParseTitle_def)
  assume "blank input"
  with s show e: "simpleParseTitle input = [[]]" by (simp add: trim_blank)
  then show v: "isValidSimpleParse (simpleParseTitle input)" by (simp add: empty_title_valid)
  from parseTitles_simple [OF v] e show "parseTitles w tr input = (tr, Inr [[]])" by simp
qed

theorem no_separator_single_title_witness:
  "44 \<notin> set (js ''   '') \<and> 10 \<notin> set (js ''   '') \<and> blank (js ''   '')
   \<and> parseTitles calmWorld [] (js ''   '') = ([], Inr [[]])"
proof -
  have a: "44 \<notin> set (js ''   '') \<and> 10 \<notin> set (js ''   '')" by (simp add: js_def)
  have b: "blank (js ''   '')" by (simp add: js_def blank_def isWhiteSpace_def)
  from no_separator_single_title [of "js ''   ''" calmWorld "[]"] a b show ?thesis by blast
qed

text \<open>
  C2 as stated fails: \<open>parseTitles\<close> has no \<open>try\<close> block, and \<open>extractTitles\<close> rethrows
  what its own \<open>try\<close> block catches. When the simple parse is rejected and the provider's API
  call fails, the exception reaches the caller.
\<close>

theorem parseTitles_throws_counterexample:
  "parseTitles apiDownWorld [] (js ''Dune or 1984'')
     = ([Extract (js ''Dune or 1984'')], Inl (ErrorObj (js ''Claude API error: fetch failed'')))"
proof -
  have "parseTitles apiDownWorld [] (js ''Dune or 1984'')
      = extractTitles apiDownWorld [] (js ''Dune or 1984'')"
    using alternatives_rejected by (simp add: parseTitles_fallback apiDownWorld_def calmWorld_def)
  then show ?thesis
    by (simp add: extractTitles_def claudeExtractTitles_def apiDownWorld_def calmWorld_def
        apiError_def errorMessage_def js_def)
qed

text \<open>
  C2, amended. \<open>parseTitles\<close> returns the simple parse, without throwing and without a
  provider call, when the simple parse passes the validation. Otherwise the provider is used:
  when its answer holds no opening bracket followed by a closing bracket the result is the
  empty list, and when the bracketed span parses the result is the parsed list; when no
  provider is configured, when the API call fails or when the answer of the Claude provider
  has no text, \<open>parseTitles\<close> throws. (What happens when the span does not parse is not
  part of this statement.)
\<close>

theorem parseTitles_outcomes:
  "(isValidSimpleParse (simpleParseTitle input) \<longrightarrow>
      parseTitles w tr input = (tr, Inr (simpleParseTitle input)))
   \<and> (\<not> isValidSimpleParse (simpleParseTitle input) \<longrightarrow>
        (currentProvider w \<notin> set (availableProviders w) \<longrightarrow>
           parseTitles w tr input = (tr, Inl (providerMissing w)))
        \<and> (currentProvider w \<in> set (availableProviders w) \<longrightarrow>
             (\<forall>e. completion w (length tr) = Inl e \<longrightarrow>
                parseTitles w tr input
                  = (tr @ [Extract input], Inl (apiError (providerLabel w) e)))
             \<and> (completion w (length tr) = Inr None \<and> currentProvider w \<noteq> js ''gemini'' \<longrightarrow>
                  parseTitles w tr input
                    = (tr @ [Extract input],
                       Inl (apiError (js ''Claude'')
                              (ErrorObj (js ''No text content in Claude response'')))))
             \<and> (\<forall>t. completion w (length tr) = Inr (Some t) \<and> \<not> hasBracketedSpan t \<longrightarrow>
                  parseTitles w tr input = (tr @ [Extract input], Inr []))
             \<and> (\<forall>t j titles. completion w (length tr) = Inr (Some t) \<and> firstJsonArray t = Some j
                    \<and> jsonParse w j = Inr titles \<longrightarrow>
                  parseTitles w tr input = (tr @ [Extract input], Inr titles))))"
  by (auto simp: parseTitles_def extractTitles_def claudeExtractTitles_def geminiExtractTitles_def
      providerLabel_def dest!: no_span_None)

theorem parseTitles_outcomes_witness:
  "\<not> isValidSimpleParse (simpleParseTitle (js ''Dune or 1984''))
   \<and> currentProvider proseWorld \<in> set (availableProviders proseWorld)
   \<and> completion proseWorld (length ([] :: event list)) = Inr (Some (js ''I found no titles.''))
   \<and> \<not> hasBracketedSpan (js ''I found no titles.'')
   \<and> parseTitles proseWorld [] (js ''Dune or 1984'') = ([Extract (js ''Dune or 1984'')], Inr [])"
proof -
  have a: "\<not> isValidSimpleParse (simpleParseTitle (js ''Dune or 1984''))"
    by (rule alternatives_rejected)
  have b: "currentProvider proseWorld \<in> set (availableProviders proseWorld)"
    by (simp add: proseWorld_def calmWorld_def)
  have c: "completion proseWorld (length ([] :: event list)) = Inr (Some (js ''I found no titles.''))"
    by (simp add: proseWorld_def calmWorld_def)
  have "firstJsonArray (js ''I found no titles.'') = None"
    by (simp add: firstJsonArray_def js_def)
  then have d: "\<not> hasBracketedSpan (js ''I found no titles.'')"
    by (simp add: firstJsonArray_None_iff)
  from parseTitles_outcomes [of "js ''Dune or 1984''" proseWorld "[]"] a b c d
  have "parseTitles proseWorld [] (js ''Dune or 1984'') = ([] @ [Extract (js ''Dune or 1984'')], Inr [])"
    by blast
  with a b c d show ?thesis by simp
qed

section \<open>Properties of delivery\<close>

lemma showNat_length: "0 < k \<Longrightarrow> n < 10 ^ k \<Longrightarrow> length (showNat n) \<le> k"
proof (induction k arbitrary: n)
  case 0
  then show ?case by simp
next
  case (Suc k)
  show ?case
  proof (cases "n < 10")
    case True
    then show ?thesis by (simp add: showNat.simps [of n])
  next
    case False
    with Suc.prems have k: "0 < k" by (cases k) simp_all
    from Suc.prems have "n div 10 < 10 ^ k" by (simp add: less_mult_imp_div_less mult.commute)
    from Suc.IH [OF k this] False show ?thesis by (simp add: showNat.simps [of n])
  qed
qed

lemma splitContent_fits: "length t \<le> m \<Longrightarrow> splitContent t m = Some [t]"
  by (simp add: splitContent_def)

lemma splitContent_default: "\<exists>chunks. splitContent t 1900 = Some chunks"
  by (rule splitContent_returns) simp

lemma postFollowUps_one: "postFollowUps w tr e [c] = tr @ [FollowUp c e]"
  by (simp split: reply.splits)

lemma sendFollowUp_short:
  "length t \<le> 1900 \<Longrightarrow> sendFollowUp w tr t e = Some (tr @ [FollowUp t e], Inr ())"
  by (simp add: sendFollowUp_def splitContent_fits postFollowUps_one del: postFollowUps.simps)

lemma tooManyMessage_short: "n < 2 ^ 32 \<Longrightarrow> length (tooManyMessage n) \<le> 1900"
proof -
  assume "n < 2 ^ 32"
  then have "n < 10 ^ 10" by simp
  with showNat_length [of 10 n] have "length (showNat n) \<le> 10" by simp
  then show ?thesis by (simp add: tooManyMessage_def js_def)
qed

lemma too_many_slash:
  assumes "parseTitles w [] input = (tr, Inr titles)" and "10 < length titles"
    and "length titles < 2 ^ 32"
  shows "processDeferred w (SynopsisBatch input useThread channelId)
    = Some (tr @ [FollowUp (tooManyMessage (length titles)) False])"
proof -
  from assms have "titles \<noteq> []" by auto
  with assms show ?thesis
    by (simp add: processDeferred_def andThen_def sendFollowUp_short tooManyMessage_short)
qed

lemma too_many_message:
  assumes "parseTitles w [] input = (tr, Inr titles)" and "10 < length titles"
    and "length titles < 2 ^ 32" and "input \<noteq> []"
  shows "processDeferred w (MessageCommand (js ''Generate Synopses'') (Some input) targetId channelId)
    = Some (tr @ [FollowUp (tooManyMessage (length titles)) False])"
proof -
  from assms have "titles \<noteq> []" by auto
  with assms show ?thesis
    by (simp add: processDeferred_def andThen_def sendFollowUp_short tooManyMessage_short)
qed

lemma eleven_parse: "simpleParseTitle (js ''a,b,c,d,e,f,g,h,i,j,k'') = elevenTitles"
  by (simp add: simpleParseTitle_def elevenTitles_def js_def trim_def isWhiteSpace_def)

lemma eleven_valid: "isValidSimpleParse elevenTitles"
  by (simp add: elevenTitles_def validation_eval js_def)

lemma eleven_resolved:
  "parseTitles calmWorld [] (js ''a,b,c,d,e,f,g,h,i,j,k'') = ([], Inr elevenTitles)"
  using parseTitles_simple [of "js ''a,b,c,d,e,f,g,h,i,j,k''" calmWorld "[]"] eleven_valid
  by (simp add: eleven_parse)

lemma eleven_extracted:
  "parseTitles calmWorld [] (js ''Dune or 1984'') = ([Extract (js ''Dune or 1984'')], Inr elevenTitles)"
proof -
  have "parseTitles calmWorld [] (js ''Dune or 1984'') = extractTitles calmWorld [] (js ''Dune or 1984'')"
    using alternatives_rejected by (simp add: parseTitles_fallback calmWorld_def)
  then show ?thesis by (simp add: extractTitles_calm)
qed

text \<open>
  C7 as stated fails when the titles were resolved by the extraction fallback: the list of
  eleven titles then comes from a call to the generation provider, so one call of the
  generation client has been issued when the pipeline stops.
\<close>

theorem too_many_after_extraction_counterexample:
  "parseTitles calmWorld [] (js ''Dune or 1984'') = ([Extract (js ''Dune or 1984'')], Inr elevenTitles)
   \<and> 10 < length elevenTitles
   \<and> processDeferred calmWorld (SynopsisBatch (js ''Dune or 1984'') False (js ''c''))
       = Some [Extract (js ''Dune or 1984''), FollowUp (tooManyMessage 11) False]"
proof -
  have l: "length elevenTitles = 11" by (simp add: elevenTitles_def)
  from too_many_slash [OF eleven_extracted, of False "js ''c''"] l eleven_extracted
  show ?thesis by simp
qed

text \<open>
  C7, amended. When the resolved list has more than ten titles, the invocation, slash command
  or message command, ends after one follow-up, the message \<open>Too many books\<close>, and no
  synopsis request is issued. Before it the trace holds what the resolution issued: nothing,
  or the one title-extraction request when the simple parse was rejected. (The number of
  titles is below \<open>2 ^ 32\<close>, the bound of a JavaScript array, so the message fits one post.)
\<close>

theorem too_many_titles_stop:
  assumes "parseTitles w [] input = (tr, Inr titles)" and "10 < length titles"
    and "length titles < 2 ^ 32"
  shows "processDeferred w (SynopsisBatch input useThread channelId)
           = Some (tr @ [FollowUp (tooManyMessage (length titles)) False])
    \<and> (input \<noteq> [] \<longrightarrow>
          processDeferred w (MessageCommand (js ''Generate Synopses'') (Some input) targetId channelId)
            = Some (tr @ [FollowUp (tooManyMessage (length titles)) False]))
    \<and> (tr = [] \<or> tr = [Extract input])
    \<and> \<not> list_ex isGenerate (tr @ [FollowUp (tooManyMessage (length titles)) False])"
proof -
  from parseTitles_trace [OF assms(1)] have t: "tr = [] \<or> tr = [Extract input]" by simp
  then have "\<not> list_ex isGenerate (tr @ [FollowUp (tooManyMessage (length titles)) False])"
    by auto
  with t too_many_slash [OF assms] too_many_message [OF assms] show ?thesis by blast
qed

theorem too_many_titles_stop_witness:
  "parseTitles calmWorld [] (js ''a,b,c,d,e,f,g,h,i,j,k'') = ([], Inr elevenTitles)
   \<and> 10 < length elevenTitles \<and> length elevenTitles < 2 ^ 32
   \<and> processDeferred calmWorld (SynopsisBatch (js ''a,b,c,d,e,f,g,h,i,j,k'') True (js ''c''))
       = Some [FollowUp (tooManyMessage 11) False]"
proof -
  have l: "length elevenTitles = 11" by (simp add: elevenTitles_def)
  then have b: "10 < length elevenTitles" "length elevenTitles < 2 ^ 32" by simp_all
  from too_many_titles_stop [OF eleven_resolved b, of True "js ''c''"] l eleven_resolved b
  show ?thesis by simp
qed

subsection \<open>Posting the chunks of a batch\<close>

lemma postChunks_refused:
  "j < length chunks \<Longrightarrow> \<forall>i<j. \<exists>b. fetch w (length tr + i) = Ok b \<Longrightarrow>
   fetch w (length tr + j) = NotOk \<Longrightarrow>
     postChunks w tr chunks = (tr @ map (\<lambda>c. FollowUp c False) (take (Suc j) chunks), Inr ())"
proof (induction chunks arbitrary: tr j)
  case Nil
  then show ?case by simp
next
  case (Cons c cs)
  show ?case
  proof (cases j)
    case 0
    with Cons.prems show ?thesis by simp
  next
    case (Suc j')
    from Cons.prems(2) Suc obtain b where b: "fetch w (length tr) = Ok b" by force
    have 1: "j' < length cs" using Cons.prems(1) Suc by simp
    have 2: "\<forall>i<j'. \<exists>b. fetch w (length (tr @ [FollowUp c False]) + i) = Ok b"
    proof (intro allI impI)
      fix i assume "i < j'"
      then have "Suc i < j" using Suc by simp
      with Cons.prems(2) show "\<exists>b. fetch w (length (tr @ [FollowUp c False]) + i) = Ok b"
        by force
    qed
    have 3: "fetch w (length (tr @ [FollowUp c False]) + j') = NotOk"
      using Cons.prems(3) Suc by simp
    from Cons.IH [OF 1 2 3] b Suc show ?thesis by simp
  qed
qed

lemma postToThread_refused:
  "j < length chunks \<Longrightarrow> \<forall>i<j. \<exists>b. fetch w (length tr + i) = Ok b \<Longrightarrow>
   fetch w (length tr + j) = NotOk \<Longrightarrow>
     postToThread w tr threadId chunks
       = (tr @ map (\<lambda>c. ThreadPost threadId c) (take (Suc j) chunks), Inr ())"
proof (induction chunks arbitrary: tr j)
  case Nil
  then show ?case by simp
next
  case (Cons c cs)
  show ?case
  proof (cases j)
    case 0
    with Cons.prems show ?thesis by simp
  next
    case (Suc j')
    from Cons.prems(2) Suc obtain b where b: "fetch w (length tr) = Ok b" by force
    have 1: "j' < length cs" using Cons.prems(1) Suc by simp
    have 2: "\<forall>i<j'. \<exists>b. fetch w (length (tr @ [ThreadPost threadId c]) + i) = Ok b"
    proof (intro allI impI)
      fix i assume "i < j'"
      then have "Suc i < j" using Suc by simp
      with Cons.prems(2) show "\<exists>b. fetch w (length (tr @ [ThreadPost threadId c]) + i) = Ok b"
        by force
    qed
    have 3: "fetch w (length (tr @ [ThreadPost threadId c]) + j') = NotOk"
      using Cons.prems(3) Suc by simp
    from Cons.IH [OF 1 2 3] b Suc show ?thesis by simp
  qed
qed

lemma splitLoop_grows: "splitLoop m acc r = Some out \<Longrightarrow> length acc \<le> length out"
proof (induction m acc r out rule: splitLoop_induct)
  case (step f m acc r out)
  show ?case
  proof (cases "r = [] \<or> length r \<le> m")
    case True
    with step.hyps show ?thesis by (auto split: if_splits)
  next
    case False
    with step.hyps
    have "f m (acc @ [trim (take (chooseSplit r m) r)]) (trim (drop (chooseSplit r m) r)) = Some out"
      by simp
    from step.IH [OF this] show ?thesis by simp
  qed
qed

lemma splitContent_nonempty: "splitContent t m = Some chunks \<Longrightarrow> chunks \<noteq> []"
proof (cases "length t \<le> m")
  case True
  assume "splitContent t m = Some chunks"
  with True show ?thesis by (auto simp: splitContent_def)
next
  case False
  assume "splitContent t m = Some chunks"
  with False have "splitLoop m [] t = Some chunks" by (simp add: splitContent_def)
  with False have "splitLoop m ([] @ [trim (take (chooseSplit t m) t)])
      (trim (drop (chooseSplit t m) t)) = Some chunks"
    by (simp add: splitLoop_cut)
  from splitLoop_grows [OF this] show ?thesis by auto
qed

lemma postChunks_shape:
  "\<exists>xs x. postChunks w tr cs = (tr @ xs, x) \<and> \<not> list_ex isThreadPost xs
     \<and> (cs \<noteq> [] \<longrightarrow> FollowUp (hd cs) False \<in> set xs)"
proof (induction cs arbitrary: tr)
  case Nil
  then show ?case by simp
next
  case (Cons c cs)
  show ?case
  proof (cases "fetch w (length tr)")
    case (Ok b)
    from Cons.IH [of "tr @ [FollowUp c False]"] obtain xs x where
      "postChunks w (tr @ [FollowUp c False]) cs = ((tr @ [FollowUp c False]) @ xs, x)"
      "\<not> list_ex isThreadPost xs" by blast
    with Ok show ?thesis
      by (intro exI [of _ "FollowUp c False # xs"] exI [of _ x]) simp
  next
    case NotOk
    then show ?thesis by (intro exI [of _ "[FollowUp c False]"] exI [of _ "Inr ()"]) simp
  next
    case (Throws e)
    then show ?thesis by (intro exI [of _ "[FollowUp c False]"] exI [of _ "Inl e"]) simp
  qed
qed

lemma postChunks_no_throw:
  "\<forall>n e. fetch w n \<noteq> Throws e \<Longrightarrow> snd (postChunks w tr cs) = Inr ()"
proof (induction cs arbitrary: tr)
  case Nil
  then show ?case by simp
next
  case (Cons c cs)
  then show ?case by (cases "fetch w (length tr)") simp_all
qed

lemma sendBatchResults_shape:
  "\<exists>xs x. sendBatchResults w tr rs = Some (tr @ xs, x) \<and> \<not> list_ex isThreadPost xs"
proof (induction rs arbitrary: tr)
  case Nil
  then show ?case by simp
next
  case (Cons r rs)
  obtain cs where cs: "splitContent (content r) 1900 = Some cs"
    using splitContent_default by blast
  obtain xs x where p: "postChunks w tr cs = (tr @ xs, x)" "\<not> list_ex isThreadPost xs"
    using postChunks_shape [of w tr cs] by blast
  show ?case
  proof (cases x)
    case (Inl e)
    with cs p show ?thesis by (simp add: andThen_def)
  next
    case (Inr u)
    from Cons.IH [of "tr @ xs"] obtain ys y where
      "sendBatchResults w (tr @ xs) rs = Some ((tr @ xs) @ ys, y)" "\<not> list_ex isThreadPost ys"
      by blast
    with Inr cs p show ?thesis
      by (intro exI [of _ "xs @ ys"] exI [of _ y]) (simp add: andThen_def)
  qed
qed

lemma sendBatchResults_all_started:
  assumes "\<forall>n e. fetch w n \<noteq> Throws e"
  shows "\<exists>xs. sendBatchResults w tr rs = Some (tr @ xs, Inr ())
     \<and> (\<forall>r\<in>set rs. \<exists>cs. splitContent (content r) 1900 = Some cs \<and> FollowUp (hd cs) False \<in> set xs)"
proof (induction rs arbitrary: tr)
  case Nil
  then show ?case by simp
next
  case (Cons r rs)
  obtain cs where cs: "splitContent (content r) 1900 = Some cs"
    using splitContent_default by blast
  then have ne: "cs \<noteq> []" by (rule splitContent_nonempty)
  obtain xs x where p: "postChunks w tr cs = (tr @ xs, x)"
    and h: "cs \<noteq> [] \<longrightarrow> FollowUp (hd cs) False \<in> set xs"
    using postChunks_shape [of w tr cs] by blast
  from postChunks_no_throw [OF assms, of tr cs] p have x: "x = Inr ()" by simp
  from Cons.IH [of "tr @ xs"] obtain ys where
    ys: "sendBatchResults w (tr @ xs) rs = Some ((tr @ xs) @ ys, Inr ())"
      "\<forall>r\<in>set rs. \<exists>cs. splitContent (content r) 1900 = Some cs \<and> FollowUp (hd cs) False \<in> set ys"
    by blast
  have "sendBatchResults w tr (r # rs) = Some (tr @ (xs @ ys), Inr ())"
    using cs p x ys(1) by (simp add: andThen_def)
  moreover have "\<forall>r'\<in>set (r # rs). \<exists>cs. splitContent (content r') 1900 = Some cs
      \<and> FollowUp (hd cs) False \<in> set (xs @ ys)"
    using cs h ne ys(2) by auto
  ultimately show ?case by blast
qed

lemma sendBatchResults_refused:
  assumes "splitContent (content r) 1900 = Some chunks" and "j < length chunks"
    and "\<forall>i<j. \<exists>b. fetch w (length tr + i) = Ok b" and "fetch w (length tr + j) = NotOk"
  shows "sendBatchResults w tr (r # rs)
    = sendBatchResults w (tr @ map (\<lambda>c. FollowUp c False) (take (Suc j) chunks)) rs"
  using assms(1) postChunks_refused [OF assms(2,3,4)] by (simp add: andThen_def)

lemma sendBatchToThread_refused:
  assumes "splitContent (content r) 1900 = Some chunks" and "j < length chunks"
    and "\<forall>i<j. \<exists>b. fetch w (length tr + i) = Ok b" and "fetch w (length tr + j) = NotOk"
    and "botToken w"
  shows "sendBatchToThread w tr threadId (r # rs)
    = sendBatchToThread w (tr @ map (\<lambda>c. ThreadPost threadId c) (take (Suc j) chunks)) threadId rs"
  using assms(1,5) postToThread_refused [OF assms(2,3,4), of threadId]
  by (simp add: andThen_def sendToThread_def)

text \<open>A request that rejects is another matter: \<open>sendBatchResults\<close> has no \<open>try\<close> block,
  so the exception leaves the loop and the later synopses are not posted.\<close>

lemma sendBatchResults_rejected:
  assumes "splitContent (content r) 1900 = Some (c # cs)" and "fetch w (length tr) = Throws e"
  shows "sendBatchResults w tr (r # rs) = Some (tr @ [FollowUp c False], Inl e)"
  using assms by (simp add: andThen_def)

text \<open>
  When the post of chunk \<open>j\<close> of a synopsis is refused (the response is not ok) after
  the chunks before it were accepted, the trace holds the chunks up to \<open>j\<close> and none of the
  later chunks of that synopsis, and delivery goes on with the next synopsis from there; this
  holds for delivery to the channel and for delivery to a thread. So when no request rejects,
  however many are refused, the delivery returns normally and the first chunk of every synopsis
  of the batch has been posted.
\<close>

lemma refused_post_skips_to_next:
  "(splitContent (content r) 1900 = Some chunks \<and> j < length chunks
      \<and> (\<forall>i<j. \<exists>b. fetch w (length tr + i) = Ok b) \<and> fetch w (length tr + j) = NotOk \<longrightarrow>
        sendBatchResults w tr (r # rs)
          = sendBatchResults w (tr @ map (\<lambda>c. FollowUp c False) (take (Suc j) chunks)) rs
        \<and> (botToken w \<longrightarrow>
              sendBatchToThread w tr threadId (r # rs)
                = sendBatchToThread w (tr @ map (\<lambda>c. ThreadPost threadId c) (take (Suc j) chunks))
                    threadId rs))
   \<and> ((\<forall>n e. fetch w n \<noteq> Throws e) \<longrightarrow>
        (\<exists>xs. sendBatchResults w tr results = Some (tr @ xs, Inr ())
           \<and> (\<forall>r\<in>set results. \<exists>cs. splitContent (content r) 1900 = Some cs
                 \<and> FollowUp (hd cs) False \<in> set xs)))"
proof (intro conjI impI)
  assume a: "splitContent (content r) 1900 = Some chunks \<and> j < length chunks
      \<and> (\<forall>i<j. \<exists>b. fetch w (length tr + i) = Ok b) \<and> fetch w (length tr + j) = NotOk"
  then show "sendBatchResults w tr (r # rs)
      = sendBatchResults w (tr @ map (\<lambda>c. FollowUp c False) (take (Suc j) chunks)) rs"
    by (intro sendBatchResults_refused) simp_all
  assume "botToken w"
  with a show "sendBatchToThread w tr threadId (r # rs)
      = sendBatchToThread w (tr @ map (\<lambda>c. ThreadPost threadId c) (take (Suc j) chunks)) threadId rs"
    by (intro sendBatchToThread_refused) simp_all
next
  assume "\<forall>n e. fetch w n \<noteq> Throws e"
  then show "\<exists>xs. sendBatchResults w tr results = Some (tr @ xs, Inr ())
      \<and> (\<forall>r\<in>set results. \<exists>cs. splitContent (content r) 1900 = Some cs
            \<and> FollowUp (hd cs) False \<in> set xs)"
    by (rule sendBatchResults_all_started)
qed

lemma refused_post_skips_to_next_example:
  "splitContent (content longResult) 1900 = Some [replicate 1900 98, [98]]
   \<and> (0 :: nat) < length [replicate 1900 (98 :: nat), [98]]
   \<and> fetch firstRefusedWorld (length ([] :: event list) + 0) = NotOk
   \<and> sendBatchResults firstRefusedWorld [] [longResult, shortResult]
       = Some ([FollowUp (replicate 1900 98) False, FollowUp (js ''two'') False], Inr ())"
proof -
  have c: "splitContent (content longResult) 1900 = Some [replicate 1900 98, [98]]"
    by (simp add: longResult_def long_run_chunks)
  have f: "fetch firstRefusedWorld (length ([] :: event list) + 0) = NotOk"
    by (simp add: firstRefusedWorld_def calmWorld_def)
  have "sendBatchResults firstRefusedWorld [] (longResult # [shortResult])
      = sendBatchResults firstRefusedWorld
          ([] @ map (\<lambda>c. FollowUp c False) (take (Suc 0) [replicate 1900 98, [98]])) [shortResult]"
    using refused_post_skips_to_next [of longResult "[replicate 1900 98, [98]]" 0
        firstRefusedWorld "[]" "[shortResult]"] c f
    by simp
  also have "\<dots> = Some ([FollowUp (replicate 1900 98) False, FollowUp (js ''two'') False], Inr ())"
    by (simp add: andThen_def shortResult_def splitContent_fits js_def firstRefusedWorld_def
        calmWorld_def)
  finally show ?thesis using c f by simp
qed

subsection \<open>The fallback to the channel\<close>







lemma postFollowUps_shape:
  "\<exists>xs. postFollowUps w tr e cs = tr @ xs \<and> \<not> list_ex isThreadPost xs"
proof (induction cs arbitrary: tr)
  case Nil
  then show ?case by simp
next
  case (Cons c cs)
  show ?case
  proof (cases "fetch w (length tr)")
    case (Ok b)
    from Cons.IH [of "tr @ [FollowUp c e]"] obtain xs where
      "postFollowUps w (tr @ [FollowUp c e]) e cs = (tr @ [FollowUp c e]) @ xs"
      "\<not> list_ex isThreadPost xs" by blast
    with Ok show ?thesis by (intro exI [of _ "FollowUp c e # xs"]) simp
  next
    case NotOk
    then show ?thesis by (intro exI [of _ "[FollowUp c e]"]) simp
  next
    case (Throws x)
    then show ?thesis by (intro exI [of _ "[FollowUp c e]"]) simp
  qed
qed

lemma sendFollowUp_shape:
  "\<exists>xs. sendFollowUp w tr t e = Some (tr @ xs, Inr ()) \<and> \<not> list_ex isThreadPost xs"
proof -
  obtain cs where "splitContent t 1900 = Some cs" using splitContent_default by blast
  with postFollowUps_shape [of w tr e cs] show ?thesis by (auto simp: sendFollowUp_def)
qed

lemma deliverToChannel_shape:
  "\<exists>xs x. deliverToChannel w tr titles = Some (tr @ xs, x) \<and> \<not> list_ex isThreadPost xs"
proof -
  obtain xs where s: "sendFollowUp w tr (processingMessage titles) False = Some (tr @ xs, Inr ())"
    and xs: "\<not> list_ex isThreadPost xs"
    using sendFollowUp_shape by blast
  let ?g = "generateBatchSynopses w (tr @ xs) titles"
  have g: "fst ?g = (tr @ xs) @ map Generate titles" by (rule generateBatchSynopses_trace)
  obtain ys y where b: "sendBatchResults w (fst ?g) (snd ?g) = Some (fst ?g @ ys, y)"
    and ys: "\<not> list_ex isThreadPost ys"
    using sendBatchResults_shape by blast
  have "deliverToChannel w tr titles = Some (tr @ (xs @ map Generate titles @ ys), y)"
    using s b g by (simp add: deliverToChannel_def andThen_def case_prod_unfold)
  moreover have "\<not> list_ex isThreadPost (xs @ map Generate titles @ ys)"
    using xs ys by (auto simp: list_ex_iff)
  ultimately show ?thesis by blast
qed





lemma showNat_digit: "n < 10 \<Longrightarrow> showNat n = [48 + n]"
  by (simp add: showNat.simps [of n])

lemma two_titles_resolved:
  "parseTitles w [] (js ''Dune, 1984'') = ([], Inr (map js [''Dune'', ''1984'']))"
proof -
  have p: "simpleParseTitle (js ''Dune, 1984'') = map js [''Dune'', ''1984'']"
    by (simp add: simpleParseTitle_def js_def trim_def isWhiteSpace_def)
  have "isValidSimpleParse (map js [''Dune'', ''1984''])" by (simp add: validation_eval js_def)
  with parseTitles_simple [of "js ''Dune, 1984''" w "[]"] p show ?thesis by simp
qed


subsection \<open>A post that rejects\<close>

lemma rejectedAt_simps:
  "botToken (rejectedAt k)"
  "fetch (rejectedAt k) n = (if n = k then Throws (ErrorObj (js ''fetch failed'')) else Ok (Some (js ''t1'')))"
  "synopsis (rejectedAt k) n = Inr (js ''A synopsis.'')"
  by (simp_all add: rejectedAt_def calmWorld_def)

text \<open>
  C9 does not hold of the code when the post fails by its request rejecting.
  \<open>sendBatchResults\<close> and \<open>sendToThread\<close> have no \<open>try\<close> block (\<open>sendFollowUp\<close> has
  one), so the exception leaves both loops: with two results to deliver and the first post
  rejected, the second result is never posted, on the channel as in a thread. In the whole
  invocation for \<open>Dune, 1984\<close> the synopsis of 1984 is never posted and the \<open>catch\<close>
  clause of \<open>processDeferred\<close> reports the error instead, without a thread and with one;
  with every post accepted the same invocation ends with both synopses. The comment in the
  loop of \<open>sendBatchResults\<close> reads \<open>Continue with next synopsis even if one fails\<close>.
\<close>

theorem rejected_post_aborts_batch:
  "sendBatchResults (rejectedAt 0) [] [shortResult, longResult]
     = Some ([FollowUp (js ''two'') False], Inl (ErrorObj (js ''fetch failed'')))
   \<and> sendBatchToThread (rejectedAt 0) [] (js ''t1'') [shortResult, longResult]
       = Some ([ThreadPost (js ''t1'') (js ''two'')], Inl (ErrorObj (js ''fetch failed'')))
   \<and> processDeferred (rejectedAt 3) (SynopsisBatch (js ''Dune, 1984'') False (js ''c''))
       = Some [FollowUp (processingMessage (map js [''Dune'', ''1984''])) False,
               Generate (js ''Dune''), Generate (js ''1984''),
               FollowUp (js ''## Dune'' @ [10, 10] @ js ''A synopsis.'') False,
               FollowUp ([10060] @ js '' Error: fetch failed'') False]
   \<and> processDeferred (rejectedAt 4) (SynopsisBatch (js ''Dune, 1984'') True (js ''c''))
       = Some [CreateThread (js ''c'') (threadName (map js [''Dune'', ''1984''])),
               ThreadPost (js ''t1'') (threadIntro (map js [''Dune'', ''1984''])),
               Generate (js ''Dune''), Generate (js ''1984''),
               ThreadPost (js ''t1'') (js ''## Dune'' @ [10, 10] @ js ''A synopsis.''),
               FollowUp ([10060] @ js '' Error: fetch failed'') False]
   \<and> processDeferred calmWorld (SynopsisBatch (js ''Dune, 1984'') False (js ''c''))
       = Some [FollowUp (processingMessage (map js [''Dune'', ''1984''])) False,
               Generate (js ''Dune''), Generate (js ''1984''),
               FollowUp (js ''## Dune'' @ [10, 10] @ js ''A synopsis.'') False,
               FollowUp (js ''## 1984'' @ [10, 10] @ js ''A synopsis.'') False]"
proof -
  let ?T = "[js ''Dune'', js ''1984'']"
  let ?e = "ErrorObj (js ''fetch failed'')"
  let ?d = "js ''## Dune'' @ [10, 10] @ js ''A synopsis.''"
  let ?n = "js ''## 1984'' @ [10, 10] @ js ''A synopsis.''"
  let ?r1 = "\<lparr>title = js ''Dune'', content = ?d, error = False\<rparr>"
  let ?r2 = "\<lparr>title = js ''1984'', content = ?n, error = False\<rparr>"
  let ?x = "[10060] @ js '' Error: fetch failed''"
  have T: "map js [''Dune'', ''1984''] = ?T" by simp
  have two: "splitContent (js ''two'') 1900 = Some [js ''two'']"
    by (rule splitContent_fits) (simp add: js_def)
  have 1: "sendBatchResults (rejectedAt 0) [] [shortResult, longResult]
      = Some ([FollowUp (js ''two'') False], Inl ?e)"
    by (simp add: shortResult_def two rejectedAt_simps andThen_def)
  have 2: "sendBatchToThread (rejectedAt 0) [] (js ''t1'') [shortResult, longResult]
      = Some ([ThreadPost (js ''t1'') (js ''two'')], Inl ?e)"
    by (simp add: shortResult_def two rejectedAt_simps andThen_def sendToThread_def)
  have m: "length (processingMessage ?T) \<le> 1900"
    by (simp add: processingMessage_def showNat_digit js_def)
  have i: "length (threadIntro ?T) \<le> 1900"
    by (simp add: threadIntro_def showNat_digit js_def)
  have n: "length (threadName ?T) \<le> 100" by (simp add: threadName_def showNat_digit js_def)
  have sd: "splitContent ?d 1900 = Some [?d]" by (rule splitContent_fits) (simp add: js_def)
  have sn: "splitContent ?n 1900 = Some [?n]" by (rule splitContent_fits) (simp add: js_def)
  note sd = sd [simplified] and sn = sn [simplified]
  have x: "length ?x \<le> 1900" by (simp add: js_def)
  have p: "parseTitles w [] (js ''Dune, 1984'') = ([], Inr ?T)" for w
    using two_titles_resolved [of w] by simp
  have g: "generateBatchSynopses w tr ?T
      = (tr @ [Generate (js ''Dune''), Generate (js ''1984'')], [?r1, ?r2])"
    if "\<And>n. synopsis w n = Inr (js ''A synopsis.'')" for w tr
    by (simp add: synopsisResult_def that js_def)
  have ga: "\<And>n. synopsis (rejectedAt k) n = Inr (js ''A synopsis.'')" for k
    by (simp add: rejectedAt_simps)
  have gc: "\<And>n. synopsis calmWorld n = Inr (js ''A synopsis.'')"
    by (simp add: calmWorld_def)
  have b3: "processBody (rejectedAt 3) (SynopsisBatch (js ''Dune, 1984'') False (js ''c''))
      = Some ([FollowUp (processingMessage ?T) False, Generate (js ''Dune''),
               Generate (js ''1984''), FollowUp ?d False], Inl ?e)"
    by (simp add: p andThen_def deliverToChannel_def sendFollowUp_short [OF m] g [OF ga] sd
        rejectedAt_simps del: generateBatchSynopses.simps)
  have 3: "processDeferred (rejectedAt 3) (SynopsisBatch (js ''Dune, 1984'') False (js ''c''))
      = Some [FollowUp (processingMessage ?T) False, Generate (js ''Dune''), Generate (js ''1984''),
              FollowUp ?d False, FollowUp ?x False]"
    unfolding processDeferred_def b3 using sendFollowUp_short [OF x]
    by (simp add: errorMessage_def js_def)
  have c4: "createStandaloneThread (rejectedAt 4) [] (js ''c'') (threadName ?T)
      = ([CreateThread (js ''c'') (threadName ?T)], Some (js ''t1''))"
    using n by (simp add: createStandaloneThread_def rejectedAt_simps)
  have t4: "sendToThread (rejectedAt 4) [CreateThread (js ''c'') (threadName ?T)] (js ''t1'')
      (threadIntro ?T)
      = Some ([CreateThread (js ''c'') (threadName ?T), ThreadPost (js ''t1'') (threadIntro ?T)],
              Inr ())"
    using i by (simp add: sendToThread_def splitContent_fits rejectedAt_simps)
  have bt: "sendBatchToThread (rejectedAt 4)
        [CreateThread (js ''c'') (threadName ?T), ThreadPost (js ''t1'') (threadIntro ?T),
         Generate (js ''Dune''), Generate (js ''1984'')] (js ''t1'') [?r1, ?r2]
      = Some ([CreateThread (js ''c'') (threadName ?T), ThreadPost (js ''t1'') (threadIntro ?T),
               Generate (js ''Dune''), Generate (js ''1984''), ThreadPost (js ''t1'') ?d], Inl ?e)"
    by (simp add: andThen_def sendToThread_def sd rejectedAt_simps)
  have dt: "deliverToThread (rejectedAt 4) [CreateThread (js ''c'') (threadName ?T)] (js ''t1'') ?T
      = Some ([CreateThread (js ''c'') (threadName ?T), ThreadPost (js ''t1'') (threadIntro ?T),
               Generate (js ''Dune''), Generate (js ''1984''), ThreadPost (js ''t1'') ?d], Inl ?e)"
    unfolding deliverToThread_def t4 using bt
    by (simp add: andThen_def g [OF ga] del: generateBatchSynopses.simps sendBatchToThread.simps)
  have ne: "js ''t1'' \<noteq> []" by (simp add: js_def)
  have b4: "processBody (rejectedAt 4) (SynopsisBatch (js ''Dune, 1984'') True (js ''c''))
      = Some ([CreateThread (js ''c'') (threadName ?T), ThreadPost (js ''t1'') (threadIntro ?T),
               Generate (js ''Dune''), Generate (js ''1984''), ThreadPost (js ''t1'') ?d], Inl ?e)"
    by (simp add: p andThen_def c4 truthy_def ne dt)
  have 4: "processDeferred (rejectedAt 4) (SynopsisBatch (js ''Dune, 1984'') True (js ''c''))
      = Some [CreateThread (js ''c'') (threadName ?T), ThreadPost (js ''t1'') (threadIntro ?T),
              Generate (js ''Dune''), Generate (js ''1984''), ThreadPost (js ''t1'') ?d,
              FollowUp ?x False]"
    unfolding processDeferred_def b4 using sendFollowUp_short [OF x]
    by (simp add: errorMessage_def js_def)
  have fc: "fetch calmWorld k = Ok None" for k by (simp add: calmWorld_def)
  have b5: "processBody calmWorld (SynopsisBatch (js ''Dune, 1984'') False (js ''c''))
      = Some ([FollowUp (processingMessage ?T) False, Generate (js ''Dune''),
               Generate (js ''1984''), FollowUp ?d False, FollowUp ?n False], Inr ())"
    by (simp add: p andThen_def deliverToChannel_def sendFollowUp_short [OF m] g [OF gc] sd sn
        fc del: generateBatchSynopses.simps)
  have 5: "processDeferred calmWorld (SynopsisBatch (js ''Dune, 1984'') False (js ''c''))
      = Some [FollowUp (processingMessage ?T) False, Generate (js ''Dune''), Generate (js ''1984''),
              FollowUp ?d False, FollowUp ?n False]"
    unfolding processDeferred_def b5 by simp
  from 1 2 3 4 5 show ?thesis unfolding T by blast
qed

subsection \<open>Every batch invocation returns\<close>

lemma sendFollowUp_returns: "\<exists>tr'. sendFollowUp w tr t e = Some (tr', Inr ())"
  using sendFollowUp_shape [of w tr t e] by blast

lemma sendFollowUp_returns_any: "\<exists>tr' x. sendFollowUp w tr t e = Some (tr', x)"
  using sendFollowUp_shape [of w tr t e] by blast

lemma sendToThread_returns: "\<exists>tr' x. sendToThread w tr threadId t = Some (tr', x)"
proof -
  obtain cs where "splitContent t 1900 = Some cs" using splitContent_default by blast
  then show ?thesis by (cases "postToThread w tr threadId cs") (simp add: sendToThread_def)
qed

lemma sendBatchToThread_returns: "\<exists>tr' x. sendBatchToThread w tr threadId rs = Some (tr', x)"
proof (induction rs arbitrary: tr)
  case Nil
  then show ?case by simp
next
  case (Cons r rs)
  obtain tr1 x where s: "sendToThread w tr threadId (content r) = Some (tr1, x)"
    using sendToThread_returns by blast
  show ?case
  proof (cases x)
    case (Inl e)
    with s show ?thesis by (simp add: andThen_def)
  next
    case (Inr u)
    with s Cons.IH [of tr1] show ?thesis by (simp add: andThen_def)
  qed
qed

lemma deliverToChannel_returns: "\<exists>tr' x. deliverToChannel w tr titles = Some (tr', x)"
  using deliverToChannel_shape [of w tr titles] by blast

lemma deliverToThread_returns: "\<exists>tr' x. deliverToThread w tr threadId titles = Some (tr', x)"
proof -
  obtain tr1 x where s: "sendToThread w tr threadId (threadIntro titles) = Some (tr1, x)"
    using sendToThread_returns by blast
  show ?thesis
  proof (cases x)
    case (Inl e)
    with s show ?thesis by (simp add: deliverToThread_def andThen_def)
  next
    case (Inr u)
    let ?g = "generateBatchSynopses w tr1 titles"
    obtain tr2 y where b: "sendBatchToThread w (fst ?g) threadId (snd ?g) = Some (tr2, y)"
      using sendBatchToThread_returns by blast
    show ?thesis
    proof (cases y)
      case (Inl e)
      with s Inr b show ?thesis
        by (simp add: deliverToThread_def andThen_def case_prod_unfold)
    next
      case r: (Inr v)
      obtain tr3 where "sendFollowUp w tr2 (doneMessage titles) True = Some (tr3, Inr ())"
        using sendFollowUp_returns by blast
      with s Inr b r show ?thesis
        by (simp add: deliverToThread_def andThen_def case_prod_unfold)
    qed
  qed
qed

lemma afterResolution_cases:
  assumes "\<And>tr titles. \<exists>tr' x. k tr titles = Some (tr', x)"
  shows "\<exists>tr' x. andThen (Some (parseTitles w [] input)) k = Some (tr', x)"
proof (cases "parseTitles w [] input")
  case (Pair tr r)
  then show ?thesis using assms by (cases r) (simp_all add: andThen_def)
qed

lemma processBody_returns: "\<exists>tr x. processBody w cmd = Some (tr, x)"
proof (cases cmd)
  case (MessageCommand name messageContent targetId channelId)
  show ?thesis
  proof (cases "name = js ''Generate Synopses'' \<and> truthy messageContent")
    case False
    then show ?thesis
      using MessageCommand
      by (auto simp: truthy_def sendFollowUp_returns_any split: option.splits)
  next
    case True
    then obtain t where t: "messageContent = Some t" "t \<noteq> []"
      by (auto simp: truthy_def split: option.splits)
    have "\<exists>tr' x. andThen (Some (parseTitles w [] t))
        (\<lambda>tr titles.
            if length titles = 0 then
              sendFollowUp w tr
                ([10060] @ js '' Could not find any book titles in that message'') False
            else if length titles > 10 then
              sendFollowUp w tr (tooManyMessage (length titles)) False
            else
              (case createThreadFromMessage w tr channelId targetId (threadName titles) of
                 (tr', threadId) \<Rightarrow>
                   if \<not> truthy threadId then deliverToChannel w tr' titles
                   else (case threadId of
                           None \<Rightarrow> deliverToChannel w tr' titles
                         | Some i \<Rightarrow> deliverToThread w tr' i titles))) = Some (tr', x)"
    proof (rule afterResolution_cases)
      fix tr titles
      show "\<exists>tr' x. (if length titles = 0 then
              sendFollowUp w tr
                ([10060] @ js '' Could not find any book titles in that message'') False
            else if length titles > 10 then
              sendFollowUp w tr (tooManyMessage (length titles)) False
            else
              (case createThreadFromMessage w tr channelId targetId (threadName titles) of
                 (tr', threadId) \<Rightarrow>
                   if \<not> truthy threadId then deliverToChannel w tr' titles
                   else (case threadId of
                           None \<Rightarrow> deliverToChannel w tr' titles
                         | Some i \<Rightarrow> deliverToThread w tr' i titles))) = Some (tr', x)"
        by (simp add: case_prod_unfold sendFollowUp_returns_any deliverToChannel_returns
            deliverToThread_returns split: option.splits)
    qed
    with MessageCommand True t show ?thesis by simp
  qed
next
  case (SynopsisBatch titlesString useThread channelId)
  have "\<exists>tr' x. andThen (Some (parseTitles w [] titlesString))
       (\<lambda>tr titles.
          if length titles = 0 then
            sendFollowUp w tr ([10060] @ js '' Could not find any book titles in your input'') False
          else if length titles > 10 then
            sendFollowUp w tr (tooManyMessage (length titles)) False
          else if useThread then
            (case createStandaloneThread w tr channelId (threadName titles) of
               (tr', threadId) \<Rightarrow>
                 if truthy threadId then
                   (case threadId of
                      None \<Rightarrow> deliverToChannel w tr' titles
                    | Some i \<Rightarrow> deliverToThread w tr' i titles)
                 else deliverToChannel w tr' titles)
          else deliverToChannel w tr titles) = Some (tr', x)"
  proof (rule afterResolution_cases)
    fix tr titles
    show "\<exists>tr' x. (if length titles = 0 then
            sendFollowUp w tr ([10060] @ js '' Could not find any book titles in your input'') False
          else if length titles > 10 then
            sendFollowUp w tr (tooManyMessage (length titles)) False
          else if useThread then
            (case createStandaloneThread w tr channelId (threadName titles) of
               (tr', threadId) \<Rightarrow>
                 if truthy threadId then
                   (case threadId of
                      None \<Rightarrow> deliverToChannel w tr' titles
                    | Some i \<Rightarrow> deliverToThread w tr' i titles)
                 else deliverToChannel w tr' titles)
          else deliverToChannel w tr titles) = Some (tr', x)"
      by (simp add: case_prod_unfold sendFollowUp_returns_any deliverToChannel_returns
          deliverToThread_returns split: option.splits)
  qed
  with SynopsisBatch show ?thesis by simp
qed

text \<open>Whatever the world does, \<open>processDeferred\<close> returns for the two batch invocations:
  no loop runs forever and no exception leaves it.\<close>

lemma processDeferred_returns: "\<exists>tr. processDeferred w cmd = Some tr"
proof -
  obtain tr x where b: "processBody w cmd = Some (tr, x)" using processBody_returns by blast
  show ?thesis
  proof (cases x)
    case (Inr u)
    with b show ?thesis by (simp add: processDeferred_def)
  next
    case (Inl e)
    obtain tr' where "sendFollowUp w tr ([10060] @ js '' Error: '' @ errorMessage e) False
        = Some (tr', Inr ())"
      using sendFollowUp_returns by blast
    with b Inl show ?thesis by (simp add: processDeferred_def)
  qed
qed

end
